theory Spec2Isabelle
  imports Complex_Main
begin

section \<open>The numeric-array runtime\<close>

text \<open>
  A dense array is its shape together with its entries in row-major order, as the array
  library stores a contiguous tensor. Entries are real numbers: arithmetic is exact and
  rounding is not part of this development. Kernels that act on matrices are written out for
  arrays of rank at most two; an array with batch dimensions that reaches such a kernel
  yields the result \<open>Inl Batched\<close>, which marks the border of the development rather than
  an exception of the program.
\<close>

record tensor =
  shape :: "nat list"
  vals :: "real list"

text \<open>
  The messages of the runtime errors. Three are formatted by \<open>inv_quad_logdet\<close> and keep
  what the message is formatted from: \<open>NotSquare c s\<close> stands for ``\<open>inv_quad_logdet\<close> only
  operates on (batches of) square (positive semi-definite) LinearOperators. Got a \<open>c\<close> of size
  \<open>s\<close>.'', \<open>CannotMultiply s r\<close> for ``LinearOperator (size=\<open>s\<close>) cannot be multiplied with
  right-hand-side Tensor (size=\<open>r\<close>).'', and \<open>SameDims s r\<close> for ``LinearOperator (size=\<open>s\<close>)
  and right-hand-side Tensor (size=\<open>r\<close>) should have the same number of dimensions.''
  \<open>Runtime\<close> carries a message of the array library.
\<close>

datatype message =
    NotSquare string "nat list"
  | CannotMultiply "nat list" "nat list"
  | SameDims "nat list" "nat list"
  | Runtime string

datatype error =
    ValueError string
  | RuntimeError message
  | IndexError string
  | Batched

datatype warning = DeprecationWarning string

definition bind_res :: "error + 'a \<Rightarrow> ('a \<Rightarrow> error + 'b) \<Rightarrow> error + 'b" where
  "bind_res m f = (case m of Inl e \<Rightarrow> Inl e | Inr x \<Rightarrow> f x)"

definition numel :: "tensor \<Rightarrow> nat" where
  "numel t = prod_list (shape t)"

definition ndim :: "tensor \<Rightarrow> nat" where
  "ndim t = length (shape t)"

definition mk_mat :: "nat \<Rightarrow> nat \<Rightarrow> (nat \<Rightarrow> nat \<Rightarrow> real) \<Rightarrow> tensor" where
  "mk_mat n m f = \<lparr>shape = [n, m], vals = map (\<lambda>p. f (p div m) (p mod m)) [0..<n * m]\<rparr>"

definition mk_vec :: "nat \<Rightarrow> (nat \<Rightarrow> real) \<Rightarrow> tensor" where
  "mk_vec n f = \<lparr>shape = [n], vals = map f [0..<n]\<rparr>"

definition mk_scalar :: "real \<Rightarrow> tensor" where
  "mk_scalar x = \<lparr>shape = [], vals = [x]\<rparr>"

text \<open>Entry \<open>[i, j]\<close> of a matrix and entry \<open>[i]\<close> of a vector.\<close>

definition entry :: "tensor \<Rightarrow> nat \<Rightarrow> nat \<Rightarrow> real" where
  "entry t i j = vals t ! (i * (shape t ! 1) + j)"

definition entry1 :: "tensor \<Rightarrow> nat \<Rightarrow> real" where
  "entry1 t i = vals t ! i"

definition is_mat :: "tensor \<Rightarrow> nat \<Rightarrow> nat \<Rightarrow> bool" where
  "is_mat t n m \<longleftrightarrow> shape t = [n, m] \<and> length (vals t) = n * m"

definition is_vec :: "tensor \<Rightarrow> nat \<Rightarrow> bool" where
  "is_vec t n \<longleftrightarrow> shape t = [n] \<and> length (vals t) = n"

text \<open>Elementwise \<open>t ** 2\<close> (also \<open>t.pow(2)\<close>) and \<open>t.log()\<close>.\<close>

definition pow2 :: "tensor \<Rightarrow> tensor" where
  "pow2 t = t\<lparr>vals := map (\<lambda>x. x\<^sup>2) (vals t)\<rparr>"

definition tlog :: "tensor \<Rightarrow> tensor" where
  "tlog t = t\<lparr>vals := map ln (vals t)\<rparr>"

text \<open>\<open>t.sum(-1)\<close>: the sum over the last dimension; a zero-dimensional array is returned as it is.\<close>

fun sum_last_sh :: "nat list \<Rightarrow> tensor \<Rightarrow> error + tensor" where
  "sum_last_sh [] t = Inr t"
| "sum_last_sh [k] t = Inr (mk_scalar (\<Sum>j<k. entry1 t j))"
| "sum_last_sh [n, k] t = Inr (mk_vec n (\<lambda>i. \<Sum>j<k. entry t i j))"
| "sum_last_sh sh t = Inl Batched"

definition sum_last :: "tensor \<Rightarrow> error + tensor" where
  "sum_last t = sum_last_sh (shape t) t"

text \<open>\<open>t.sum(dim=-2)\<close>: the sum over the second-to-last dimension, which an array of rank
  below two does not have.\<close>

fun sum_rows_sh :: "nat list \<Rightarrow> tensor \<Rightarrow> error + tensor" where
  "sum_rows_sh [] t = Inl (IndexError ''Dimension out of range'')"
| "sum_rows_sh [k] t = Inl (IndexError ''Dimension out of range'')"
| "sum_rows_sh [n, k] t = Inr (mk_vec k (\<lambda>j. \<Sum>i<n. entry t i j))"
| "sum_rows_sh sh t = Inl Batched"

definition sum_rows :: "tensor \<Rightarrow> error + tensor" where
  "sum_rows t = sum_rows_sh (shape t) t"

text \<open>\<open>a @ b\<close> for arrays of rank one and two.\<close>

fun matmul_sh :: "nat list \<Rightarrow> nat list \<Rightarrow> tensor \<Rightarrow> tensor \<Rightarrow> error + tensor" where
  "matmul_sh [] sb a b = Inl (RuntimeError (Runtime ''both arguments to matmul need to be at least 1D''))"
| "matmul_sh sa [] a b = Inl (RuntimeError (Runtime ''both arguments to matmul need to be at least 1D''))"
| "matmul_sh [m] [m'] a b =
     (if m = m' then Inr (mk_scalar (\<Sum>l<m. entry1 a l * entry1 b l))
      else Inl (RuntimeError (Runtime ''size mismatch'')))"
| "matmul_sh [m] [m', k] a b =
     (if m = m' then Inr (mk_vec k (\<lambda>j. \<Sum>l<m. entry1 a l * entry b l j))
      else Inl (RuntimeError (Runtime ''size mismatch'')))"
| "matmul_sh [n, m] [m'] a b =
     (if m = m' then Inr (mk_vec n (\<lambda>i. \<Sum>l<m. entry a i l * entry1 b l))
      else Inl (RuntimeError (Runtime ''size mismatch'')))"
| "matmul_sh [n, m] [m', k] a b =
     (if m = m' then Inr (mk_mat n k (\<lambda>i j. \<Sum>l<m. entry a i l * entry b l j))
      else Inl (RuntimeError (Runtime ''size mismatch'')))"
| "matmul_sh sa sb a b = Inl Batched"

definition matmul :: "tensor \<Rightarrow> tensor \<Rightarrow> error + tensor" where
  "matmul a b = matmul_sh (shape a) (shape b) a b"

text \<open>The transpose of the last two dimensions.\<close>

fun transpose_sh :: "nat list \<Rightarrow> tensor \<Rightarrow> error + tensor" where
  "transpose_sh [] t = Inl (IndexError ''Dimension out of range'')"
| "transpose_sh [k] t = Inl (IndexError ''Dimension out of range'')"
| "transpose_sh [n, m] t = Inr (mk_mat m n (\<lambda>i j. entry t j i))"
| "transpose_sh sh t = Inl Batched"

definition transpose_t :: "tensor \<Rightarrow> error + tensor" where
  "transpose_t t = transpose_sh (shape t) t"

text \<open>\<open>torch.tril\<close> and \<open>torch.triu\<close>: the entries above, respectively below, the diagonal
  are replaced by zero.\<close>

fun tril_sh :: "nat list \<Rightarrow> tensor \<Rightarrow> error + tensor" where
  "tril_sh [] t = Inl (RuntimeError (Runtime ''tril: input tensor must have at least 2 dimensions''))"
| "tril_sh [k] t = Inl (RuntimeError (Runtime ''tril: input tensor must have at least 2 dimensions''))"
| "tril_sh [n, m] t = Inr (mk_mat n m (\<lambda>i j. if j \<le> i then entry t i j else 0))"
| "tril_sh sh t = Inl Batched"

definition tril :: "tensor \<Rightarrow> error + tensor" where
  "tril t = tril_sh (shape t) t"

fun triu_sh :: "nat list \<Rightarrow> tensor \<Rightarrow> error + tensor" where
  "triu_sh [] t = Inl (RuntimeError (Runtime ''triu: input tensor must have at least 2 dimensions''))"
| "triu_sh [k] t = Inl (RuntimeError (Runtime ''triu: input tensor must have at least 2 dimensions''))"
| "triu_sh [n, m] t = Inr (mk_mat n m (\<lambda>i j. if i \<le> j then entry t i j else 0))"
| "triu_sh sh t = Inl Batched"

definition triu :: "tensor \<Rightarrow> error + tensor" where
  "triu t = triu_sh (shape t) t"

text \<open>\<open>torch.all(a == b)\<close> for two arrays of one shape.\<close>

definition all_eq :: "tensor \<Rightarrow> tensor \<Rightarrow> bool" where
  "all_eq a b \<longleftrightarrow> vals a = vals b"

definition eye :: "nat \<Rightarrow> tensor" where
  "eye n = mk_mat n n (\<lambda>i j. if i = j then 1 else 0)"

text \<open>\<open>t.unsqueeze(-1)\<close> appends a dimension of size one; \<open>t.squeeze(-1)\<close> removes the last
  dimension when its size is one.\<close>

definition unsqueeze_last :: "tensor \<Rightarrow> tensor" where
  "unsqueeze_last t = t\<lparr>shape := shape t @ [1]\<rparr>"

definition squeeze_last :: "tensor \<Rightarrow> tensor" where
  "squeeze_last t =
     (if shape t \<noteq> [] \<and> last (shape t) = 1 then t\<lparr>shape := butlast (shape t)\<rparr> else t)"

text \<open>
  Forward substitution solves \<open>L y = b\<close> from the first row down and reads the entries of
  \<open>L\<close> on and below the diagonal only; back substitution solves \<open>U x = b\<close> from the last row
  up and reads the entries on and above the diagonal only.
\<close>

fun fsub :: "(nat \<Rightarrow> nat \<Rightarrow> real) \<Rightarrow> (nat \<Rightarrow> real) \<Rightarrow> nat \<Rightarrow> real" where
  "fsub L b i = (b i - (\<Sum>l<i. L i l * fsub L b l)) / L i i"

function bsub :: "nat \<Rightarrow> (nat \<Rightarrow> nat \<Rightarrow> real) \<Rightarrow> (nat \<Rightarrow> real) \<Rightarrow> nat \<Rightarrow> real" where
  "bsub n U b i = (b i - (\<Sum>l\<in>{i<..<n}. U i l * bsub n U b l)) / U i i"
  by pat_completeness auto
termination
  by (relation "measure (\<lambda>(n, U, b, i). n - i)") auto

declare fsub.simps [simp del]
declare bsub.simps [simp del]

text \<open>\<open>torch.linalg.solve_triangular(a, b, upper=u)\<close> for a square matrix \<open>a\<close> and a
  matrix \<open>b\<close> of as many rows.\<close>

fun solve_triangular_sh :: "nat list \<Rightarrow> nat list \<Rightarrow> tensor \<Rightarrow> tensor \<Rightarrow> bool \<Rightarrow> error + tensor" where
  "solve_triangular_sh [n, m] [n', k] a b u =
     (if n \<noteq> m then Inl (RuntimeError (Runtime ''solve_triangular: A must be batches of square matrices''))
      else if n' \<noteq> n then Inl (RuntimeError (Runtime ''solve_triangular: Incompatible shapes of A and B''))
      else Inr (mk_mat n k (\<lambda>i j.
             if u then bsub n (entry a) (\<lambda>r. entry b r j) i
             else fsub (entry a) (\<lambda>r. entry b r j) i)))"
| "solve_triangular_sh (n # m # p # sa) sb a b u = Inl Batched"
| "solve_triangular_sh sa (n # k # p # sb) a b u = Inl Batched"
| "solve_triangular_sh sa sb a b u =
     Inl (RuntimeError (Runtime ''solve_triangular: The input tensor must have at least 2 dimensions''))"

definition solve_triangular :: "tensor \<Rightarrow> tensor \<Rightarrow> bool \<Rightarrow> error + tensor" where
  "solve_triangular a b u = solve_triangular_sh (shape a) (shape b) a b u"

section \<open>The triangular factor\<close>

text \<open>
  The class of the triangular factor belongs to the library but lies outside
  \<open>chol_linear_operator.py\<close>; the definitions of this section are modelled from the
  specification, which asks of a factor: an array with an orientation tag, a transpose, a
  diagonal, a triangular solve by forward or back substitution, a solve for the system whose
  matrix is the product of the factor with its transpose, an inverse, and a dense form. The
  tag is all that a factor knows of its orientation: a solve in the direction of the tag never
  reads the other triangle of the array.
\<close>

record tri =
  tri_tensor :: tensor
  tri_upper :: bool

text \<open>What a caller may pass where a factor is expected: a factor, or a bare array.\<close>

datatype factor_arg = Factor tri | Array tensor

text \<open>Modelled from the spec: the constructor of the factor, \<open>TriangularLinearOperator(x,
  upper=u)\<close>, keeps the array of its argument (the array itself, or the array of the factor it
  is given) and tags it with \<open>u\<close>; it does not inspect the entries.\<close>

fun TriangularLinearOperator :: "factor_arg \<Rightarrow> bool \<Rightarrow> tri" where
  "TriangularLinearOperator (Array t) u = \<lparr>tri_tensor = t, tri_upper = u\<rparr>"
| "TriangularLinearOperator (Factor r) u = \<lparr>tri_tensor = tri_tensor r, tri_upper = u\<rparr>"

text \<open>Modelled from the spec: \<open>to_dense()\<close> of a factor is its array.\<close>

definition tri_to_dense :: "tri \<Rightarrow> tensor" where
  "tri_to_dense r = tri_tensor r"

text \<open>Modelled from the spec: \<open>_transpose_nonbatch()\<close> of a factor is the factor of the
  transposed array, with the opposite tag.\<close>

definition tri_transpose_nonbatch :: "tri \<Rightarrow> error + tri" where
  "tri_transpose_nonbatch r =
     bind_res (transpose_t (tri_tensor r)) (\<lambda>t.
       Inr (TriangularLinearOperator (Array t) (\<not> tri_upper r)))"

text \<open>Modelled from the spec: the product \<open>r @ s\<close> of two factors, made dense, is the matrix
  product of their arrays.\<close>

definition tri_matmul :: "tri \<Rightarrow> tri \<Rightarrow> error + tensor" where
  "tri_matmul r s = matmul (tri_tensor r) (tri_tensor s)"

text \<open>Modelled from the spec: \<open>_diagonal()\<close> of a factor is the diagonal of its array.\<close>

fun diag_sh :: "nat list \<Rightarrow> tensor \<Rightarrow> error + tensor" where
  "diag_sh [] t = Inl (RuntimeError (Runtime ''diagonal: input must have at least 2 dimensions''))"
| "diag_sh [k] t = Inl (RuntimeError (Runtime ''diagonal: input must have at least 2 dimensions''))"
| "diag_sh [n, m] t = Inr (mk_vec (min n m) (\<lambda>i. entry t i i))"
| "diag_sh sh t = Inl Batched"

definition tri_diagonal :: "tri \<Rightarrow> error + tensor" where
  "tri_diagonal r = diag_sh (shape (tri_tensor r)) (tri_tensor r)"

text \<open>Modelled from the spec: \<open>solve(b)\<close> of a factor is the triangular solve in the direction
  of the factor's tag: forward substitution for a factor tagged lower, back substitution for
  one tagged upper. A vector is solved as a single column and the solution is a vector again.\<close>

definition tri_solve :: "tri \<Rightarrow> tensor \<Rightarrow> error + tensor" where
  "tri_solve r b =
     (if ndim b = 1 then
        bind_res (solve_triangular (tri_tensor r) (unsqueeze_last b) (tri_upper r)) (\<lambda>x.
          Inr (squeeze_last x))
      else solve_triangular (tri_tensor r) b (tri_upper r))"

text \<open>Modelled from the spec: \<open>_cholesky_solve(rhs, upper=u)\<close> is the Cholesky solve of the
  array of the factor in the direction that the argument \<open>u\<close> names, whatever the tag of the
  factor. It reads only the triangle that \<open>u\<close> names: for \<open>u\<close> the upper triangle \<open>U\<close> of
  the array, solving \<open>U\<^sup>T U x = rhs\<close>, otherwise the lower triangle \<open>L\<close>, solving
  \<open>L L\<^sup>T x = rhs\<close>; in both cases a forward substitution followed by a back substitution.
  The right-hand side must have at least two dimensions.\<close>

definition tri_cholesky_solve :: "tri \<Rightarrow> tensor \<Rightarrow> bool \<Rightarrow> error + tensor" where
  "tri_cholesky_solve r rhs u =
     (if u then
        bind_res (transpose_t (tri_tensor r)) (\<lambda>rt.
        bind_res (solve_triangular rt rhs False) (\<lambda>w. solve_triangular (tri_tensor r) w True))
      else
        bind_res (solve_triangular (tri_tensor r) rhs False) (\<lambda>w.
        bind_res (transpose_t (tri_tensor r)) (\<lambda>rt. solve_triangular rt w True)))"

text \<open>\<open>t.size(-1)\<close>.\<close>

fun size_last :: "nat list \<Rightarrow> error + nat" where
  "size_last [] = Inl (IndexError ''Dimension out of range'')"
| "size_last sh = Inr (last sh)"

text \<open>Modelled from the spec: \<open>inverse()\<close> of a factor is the factor, of the same tag, of the
  solution of the triangular system against the identity.\<close>

definition tri_inverse :: "tri \<Rightarrow> error + tri" where
  "tri_inverse r =
     bind_res (size_last (shape (tri_tensor r))) (\<lambda>n.
     bind_res (tri_solve r (eye n)) (\<lambda>x.
       Inr (TriangularLinearOperator (Array x) (tri_upper r))))"

section \<open>The root-factor operator\<close>

text \<open>Modelled from the spec: a root-factor operator with root \<open>S\<close> represents \<open>S S\<^sup>T\<close>, a
  square matrix of as many rows as \<open>S\<close>: its size is the batch shape of \<open>S\<close> followed by
  \<open>(n, n)\<close>, for \<open>n = S.size(-2)\<close>. A root of fewer than two dimensions has no second-to-last
  size.\<close>

record RootLinearOperator =
  root_op :: tri

definition root_to_dense :: "'a RootLinearOperator_scheme \<Rightarrow> error + tensor" where
  "root_to_dense s =
     bind_res (tri_transpose_nonbatch (root_op s)) (\<lambda>rt. tri_matmul (root_op s) rt)"

fun size_sh :: "nat list \<Rightarrow> error + nat list" where
  "size_sh [] = Inl (IndexError ''Dimension out of range'')"
| "size_sh [k] = Inl (IndexError ''Dimension out of range'')"
| "size_sh sh = (let n = sh ! (length sh - 2) in Inr (butlast (butlast sh) @ [n, n]))"

definition size_op :: "'a RootLinearOperator_scheme \<Rightarrow> error + nat list" where
  "size_op s = size_sh (shape (tri_tensor (root_op s)))"

text \<open>\<open>dim()\<close> and \<open>is_square\<close> of an operator, from its size.\<close>

definition dim_op :: "nat list \<Rightarrow> nat" where
  "dim_op sz = length sz"

fun square_sh :: "nat list \<Rightarrow> bool" where
  "square_sh (m # n # sh) = (n = m)"
| "square_sh sh = False"

definition is_square :: "nat list \<Rightarrow> bool" where
  "is_square sz = square_sh (rev sz)"

section \<open>The Cholesky operator\<close>

text \<open>The class \<open>CholLinearOperator\<close> of \<open>chol_linear_operator.py\<close>: a root-factor operator
  with the flag \<open>upper\<close>. The decorator \<open>cached\<close> stores the result of a pure function and is
  left out.\<close>

record CholLinearOperator = RootLinearOperator +
  upper :: bool

text \<open>\<open>__init__\<close>: the warnings issued, and the operator or the error raised.\<close>

definition init :: "factor_arg \<Rightarrow> bool \<Rightarrow> warning list \<times> (error + CholLinearOperator)" where
  "init chol u =
     (case chol of
        Factor r \<Rightarrow> ([], Inr \<lparr>root_op = r, upper = u\<rparr>)
      | Array a \<Rightarrow>
          ([DeprecationWarning ''chol argument to CholLinearOperator should be a TriangularLinearOperator. Passing a dense tensor will cause errors in future versions.''],
           bind_res (tril a) (\<lambda>lo.
             if all_eq lo a then Inr \<lparr>root_op = TriangularLinearOperator (Array a) False, upper = u\<rparr>
             else bind_res (triu a) (\<lambda>up.
               if all_eq up a then Inr \<lparr>root_op = TriangularLinearOperator (Array a) True, upper = u\<rparr>
               else Inl (ValueError ''chol must be either lower or upper triangular'')))))"

text \<open>\<open>_chol_diag\<close>.\<close>

definition chol_diag :: "CholLinearOperator \<Rightarrow> error + tensor" where
  "chol_diag self = tri_diagonal (root_op self)"

text \<open>\<open>_cholesky\<close>.\<close>

definition cholesky :: "CholLinearOperator \<Rightarrow> bool \<Rightarrow> error + tri" where
  "cholesky self u =
     (if u = upper self then Inr (root_op self) else tri_transpose_nonbatch (root_op self))"

text \<open>\<open>_diagonal\<close>.\<close>

definition diagonal :: "CholLinearOperator \<Rightarrow> error + tensor" where
  "diagonal self = sum_last (pow2 (tri_to_dense (root_op self)))"

text \<open>\<open>to_dense\<close>.\<close>

definition to_dense :: "CholLinearOperator \<Rightarrow> error + tensor" where
  "to_dense self =
     (let root = root_op self in
      if upper self then
        bind_res (tri_transpose_nonbatch root) (\<lambda>rt. tri_matmul rt root)
      else
        bind_res (tri_transpose_nonbatch root) (\<lambda>rt. tri_matmul root rt))"

text \<open>\<open>inverse\<close>.\<close>

definition inverse_op :: "CholLinearOperator \<Rightarrow> error + CholLinearOperator" where
  "inverse_op self =
     bind_res (tri_inverse (root_op self)) (\<lambda>Linv.
       snd (init (Factor (TriangularLinearOperator (Factor Linv) (\<not> upper self))) (\<not> upper self)))"

text \<open>\<open>inv_quad\<close>.\<close>

definition inv_quad :: "CholLinearOperator \<Rightarrow> tensor \<Rightarrow> bool \<Rightarrow> error + tensor" where
  "inv_quad self t reduce_inv_quad =
     bind_res
       (if upper self then
          bind_res (tri_transpose_nonbatch (root_op self)) (\<lambda>rt. tri_solve rt t)
        else tri_solve (root_op self) t) (\<lambda>R.
     bind_res (sum_rows (pow2 R)) (\<lambda>inv_quad_term.
       if numel inv_quad_term \<noteq> 0 \<and> reduce_inv_quad then sum_last inv_quad_term
       else Inr inv_quad_term))"

text \<open>\<open>inv_quad_logdet\<close>. The size \<open>sz\<close> of the operator is what \<open>self.shape\<close> and
  \<open>self.size()\<close> return and what \<open>self.is_square\<close> and \<open>self.dim()\<close> are computed from; it
  is first asked for by \<open>self.is_square\<close>. The entries \<open>shape[-1]\<close> and \<open>shape[-2]\<close> exist
  where they are read: an operator that is square has at least two dimensions, and
  \<open>shape[-2]\<close> of the right-hand side is read only when it has as many dimensions as the
  operator.\<close>

definition inv_quad_logdet ::
  "CholLinearOperator \<Rightarrow> tensor option \<Rightarrow> bool \<Rightarrow> bool \<Rightarrow> error + (tensor option \<times> tensor option)" where
  "inv_quad_logdet self inv_quad_rhs logdet reduce_inv_quad =
     bind_res (size_op self) (\<lambda>sz.
      if \<not> is_square sz then
        Inl (RuntimeError (NotSquare ''CholLinearOperator'' sz))
      else
        bind_res
          (case inv_quad_rhs of
             None \<Rightarrow> Inr ()
           | Some rhs \<Rightarrow>
               if dim_op sz = 2 \<and> ndim rhs = 1 then
                 (if last sz \<noteq> numel rhs then
                    Inl (RuntimeError (CannotMultiply sz (shape rhs)))
                  else Inr ())
               else if dim_op sz \<noteq> ndim rhs then
                 Inl (RuntimeError (SameDims sz (shape rhs)))
               else if last sz \<noteq> shape rhs ! (ndim rhs - 2) then
                 Inl (RuntimeError (CannotMultiply sz (shape rhs)))
               else Inr ()) (\<lambda>_.
        bind_res
          (case inv_quad_rhs of
             None \<Rightarrow> Inr None
           | Some rhs \<Rightarrow> bind_res (inv_quad self rhs reduce_inv_quad) (\<lambda>q. Inr (Some q)))
          (\<lambda>inv_quad_term.
        bind_res
          (if logdet then
             bind_res (chol_diag self) (\<lambda>d.
             bind_res (sum_last (tlog (pow2 d))) (\<lambda>l. Inr (Some l)))
           else Inr None) (\<lambda>logdet_term.
        Inr (inv_quad_term, logdet_term)))))"

text \<open>\<open>root_inv_decomposition\<close>: the three hints may be of any type and are not read.\<close>

definition root_inv_decomposition ::
  "CholLinearOperator \<Rightarrow> 'm \<Rightarrow> 'v \<Rightarrow> 'w \<Rightarrow> error + RootLinearOperator" where
  "root_inv_decomposition self method initial_vectors test_vectors =
     bind_res (tri_inverse (root_op self)) (\<lambda>inv_root.
     bind_res (tri_transpose_nonbatch inv_root) (\<lambda>s. Inr \<lparr>root_op = s\<rparr>))"

text \<open>\<open>solve\<close>.\<close>

definition solve :: "CholLinearOperator \<Rightarrow> tensor \<Rightarrow> tensor option \<Rightarrow> error + tensor" where
  "solve self right_tensor left_tensor =
     (let is_vector = (ndim right_tensor = 1);
          rhs = (if is_vector then unsqueeze_last right_tensor else right_tensor)
      in bind_res (tri_cholesky_solve (root_op self) rhs (upper self)) (\<lambda>res.
           let res' = (if is_vector then squeeze_last res else res)
           in case left_tensor of None \<Rightarrow> Inr res' | Some left \<Rightarrow> matmul left res'))"

section \<open>Predicates of the statements\<close>

text \<open>A matrix of \<open>n\<close> rows and \<open>m\<close> columns is lower triangular when its entries above
  the diagonal are zero, upper triangular when those below are.\<close>

definition is_lower :: "tensor \<Rightarrow> nat \<Rightarrow> nat \<Rightarrow> bool" where
  "is_lower a n m \<longleftrightarrow> (\<forall>i\<in>{..<n}. \<forall>j\<in>{..<m}. i < j \<longrightarrow> entry a i j = 0)"

definition is_upper :: "tensor \<Rightarrow> nat \<Rightarrow> nat \<Rightarrow> bool" where
  "is_upper a n m \<longleftrightarrow> (\<forall>i\<in>{..<n}. \<forall>j\<in>{..<m}. j < i \<longrightarrow> entry a i j = 0)"

text \<open>The advisory that \<open>__init__\<close> issues for a bare array.\<close>

definition deprecation :: warning where
  "deprecation = DeprecationWarning ''chol argument to CholLinearOperator should be a TriangularLinearOperator. Passing a dense tensor will cause errors in future versions.''"

text \<open>The factor of the data model, of size \<open>n\<close>: a square matrix with no zero on its
  diagonal that is triangular in the direction of its tag.\<close>

definition valid_factor :: "tri \<Rightarrow> nat \<Rightarrow> bool" where
  "valid_factor r n \<longleftrightarrow>
     is_mat (tri_tensor r) n n \<and> (\<forall>i\<in>{..<n}. entry (tri_tensor r) i i \<noteq> 0) \<and>
     (if tri_upper r then is_upper (tri_tensor r) n n else is_lower (tri_tensor r) n n)"

text \<open>The factor as \<open>solve\<close> reads it: the array of the root, in the direction of the
  operator's flag \<open>upper\<close> instead of the root's tag.\<close>

definition flag_factor :: "CholLinearOperator \<Rightarrow> tri" where
  "flag_factor self = \<lparr>tri_tensor = tri_tensor (root_op self), tri_upper = upper self\<rparr>"

text \<open>Entry \<open>[i, j]\<close> of the matrix that a Cholesky operator with factor \<open>r\<close> represents:
  of \<open>R\<^sup>T R\<close> when the flag \<open>upper\<close> is set, of \<open>R R\<^sup>T\<close> otherwise.\<close>

definition gram :: "bool \<Rightarrow> nat \<Rightarrow> tensor \<Rightarrow> nat \<Rightarrow> nat \<Rightarrow> real" where
  "gram u n r i j = (if u then \<Sum>p<n. entry r p i * entry r p j else \<Sum>p<n. entry r i p * entry r j p)"

text \<open>Two operators for the examples: the lower factor \<open>[[2, 0], [1, 3]]\<close> with
  \<open>upper = False\<close>, and its transpose, an upper factor, with \<open>upper = True\<close>. Both
  represent \<open>[[4, 2], [2, 10]]\<close>.\<close>

definition ex_lower :: CholLinearOperator where
  "ex_lower = \<lparr>root_op = \<lparr>tri_tensor = \<lparr>shape = [2, 2], vals = [2, 0, 1, 3]\<rparr>, tri_upper = False\<rparr>, upper = False\<rparr>"

definition ex_upper :: CholLinearOperator where
  "ex_upper = \<lparr>root_op = \<lparr>tri_tensor = \<lparr>shape = [2, 2], vals = [2, 1, 0, 3]\<rparr>, tri_upper = True\<rparr>, upper = True\<rparr>"

text \<open>The operator that \<open>__init__\<close> builds from the bare lower-triangular array
  \<open>[[2, 0], [1, 4]]\<close> and \<open>upper = True\<close>: its factor is tagged lower, its flag says upper.
  It represents \<open>R\<^sup>T R = [[5, 4], [4, 16]]\<close>.\<close>

definition ex_mismatch :: CholLinearOperator where
  "ex_mismatch = \<lparr>root_op = \<lparr>tri_tensor = \<lparr>shape = [2, 2], vals = [2, 0, 1, 4]\<rparr>, tri_upper = False\<rparr>, upper = True\<rparr>"

text \<open>The operator of an empty factor, of no rows and no columns.\<close>

definition ex_empty :: CholLinearOperator where
  "ex_empty = \<lparr>root_op = \<lparr>tri_tensor = \<lparr>shape = [0, 0], vals = []\<rparr>, tri_upper = False\<rparr>, upper = False\<rparr>"

text \<open>\<open>torch.trace\<close>: the sum of the diagonal of a matrix.\<close>

fun trace_sh :: "nat list \<Rightarrow> tensor \<Rightarrow> error + tensor" where
  "trace_sh [n, m] t = Inr (mk_scalar (\<Sum>i<min n m. entry t i i))"
| "trace_sh sh t = Inl (RuntimeError (Runtime ''trace: expected a matrix''))"

definition trace_t :: "tensor \<Rightarrow> error + tensor" where
  "trace_t t = trace_sh (shape t) t"

text \<open>The matrix \<open>T\<^sup>T A\<^sup>-\<^sup>1 T\<close> of the quadratic form, computed densely as the specification's test
  does: \<open>T.mT @ inverse().to_dense() @ T\<close>.\<close>

definition quad_matrix :: "CholLinearOperator \<Rightarrow> tensor \<Rightarrow> error + tensor" where
  "quad_matrix self t =
     bind_res (inverse_op self) (\<lambda>inv.
     bind_res (to_dense inv) (\<lambda>ainv.
     bind_res (transpose_t t) (\<lambda>tt.
     bind_res (matmul tt ainv) (\<lambda>x. matmul x t))))"

text \<open>
  The determinant of a square matrix, by expansion along the first column: the reference
  against which the log-determinant is compared. \<open>minor i A\<close> is \<open>A\<close> without its row \<open>i\<close>
  and its first column.
\<close>

definition skip :: "nat \<Rightarrow> nat \<Rightarrow> nat" where
  "skip i r = (if r < i then r else Suc r)"

definition minor :: "nat \<Rightarrow> (nat \<Rightarrow> nat \<Rightarrow> real) \<Rightarrow> nat \<Rightarrow> nat \<Rightarrow> real" where
  "minor i A = (\<lambda>r c. A (skip i r) (Suc c))"

fun det_fun :: "nat \<Rightarrow> (nat \<Rightarrow> nat \<Rightarrow> real) \<Rightarrow> real" where
  "det_fun 0 A = 1"
| "det_fun (Suc n) A = (\<Sum>i\<le>n. (- 1) ^ i * A i 0 * det_fun n (minor i A))"

text \<open>\<open>torch.linalg.det\<close> for a square matrix.\<close>

fun det_sh :: "nat list \<Rightarrow> tensor \<Rightarrow> error + real" where
  "det_sh [n, m] t =
     (if n = m then Inr (det_fun n (entry t))
      else Inl (RuntimeError (Runtime ''linalg.det: A must be batches of square matrices'')))"
| "det_sh (n # m # p # sh) t = Inl Batched"
| "det_sh sh t = Inl (RuntimeError (Runtime ''linalg.det: The input tensor A must have at least 2 dimensions''))"

definition det_t :: "tensor \<Rightarrow> error + real" where
  "det_t t = det_sh (shape t) t"

text \<open>The position in \<open>minor i A\<close> of the row \<open>k\<close> of \<open>A\<close>, for \<open>k \<noteq> i\<close>.\<close>

definition unskip :: "nat \<Rightarrow> nat \<Rightarrow> nat" where
  "unskip i k = (if k < i then k else k - 1)"

section \<open>Arrays as matrices\<close>

lemma flat_index_less: "i < n \<Longrightarrow> j < m \<Longrightarrow> i * m + j < n * (m::nat)"
proof -
  assume a: "i < n" "j < m"
  then have "i * m + j < i * m + m" by simp
  also have "\<dots> = Suc i * m" by simp
  also have "\<dots> \<le> n * m" using a(1) by (intro mult_le_mono1) simp
  finally show ?thesis .
qed

lemma entry_mk_mat [simp]: "i < n \<Longrightarrow> j < m \<Longrightarrow> entry (mk_mat n m f) i j = f i j"
  by (simp add: entry_def mk_mat_def flat_index_less)

lemma shape_mk_mat [simp]: "shape (mk_mat n m f) = [n, m]"
  by (simp add: mk_mat_def)

lemma is_mat_mk_mat [simp]: "is_mat (mk_mat n m f) n m"
  by (simp add: is_mat_def mk_mat_def)

lemma mk_mat_eq_iff: "mk_mat n m f = mk_mat n m g \<longleftrightarrow> (\<forall>i<n. \<forall>j<m. f i j = g i j)"
proof
  assume "mk_mat n m f = mk_mat n m g"
  then have "\<And>i j. i < n \<Longrightarrow> j < m \<Longrightarrow> entry (mk_mat n m f) i j = entry (mk_mat n m g) i j"
    by simp
  then show "\<forall>i<n. \<forall>j<m. f i j = g i j" by simp
next
  assume h: "\<forall>i<n. \<forall>j<m. f i j = g i j"
  have "f (p div m) (p mod m) = g (p div m) (p mod m)" if "p < n * m" for p
  proof -
    have "0 < m" using that by (cases m) auto
    then have "p mod m < m" by simp
    moreover have "p div m < n" using that by (simp add: less_mult_imp_div_less)
    ultimately show ?thesis using h by blast
  qed
  then show "mk_mat n m f = mk_mat n m g" by (simp add: mk_mat_def)
qed

lemma mk_mat_entry: "is_mat t n m \<Longrightarrow> mk_mat n m (entry t) = t"
proof -
  assume h: "is_mat t n m"
  have "map (\<lambda>p. entry t (p div m) (p mod m)) [0..<n * m] = vals t"
  proof (rule nth_equalityI)
    show "length (map (\<lambda>p. entry t (p div m) (p mod m)) [0..<n * m]) = length (vals t)"
      using h by (simp add: is_mat_def)
  next
    fix p assume "p < length (map (\<lambda>p. entry t (p div m) (p mod m)) [0..<n * m])"
    then have "p < n * m" by simp
    then show "map (\<lambda>p. entry t (p div m) (p mod m)) [0..<n * m] ! p = vals t ! p"
      using h by (simp add: entry_def is_mat_def)
  qed
  then show ?thesis using h by (simp add: mk_mat_def is_mat_def)
qed

lemma is_mat_eqI:
  assumes "is_mat a n m" "is_mat b n m" "\<And>i j. i < n \<Longrightarrow> j < m \<Longrightarrow> entry a i j = entry b i j"
  shows "a = b"
proof -
  have "mk_mat n m (entry a) = mk_mat n m (entry b)"
    using assms(3) by (simp add: mk_mat_eq_iff)
  then show ?thesis using assms(1,2) by (simp add: mk_mat_entry)
qed

lemma tril_is_mat: "is_mat a n m \<Longrightarrow> tril a = Inr (mk_mat n m (\<lambda>i j. if j \<le> i then entry a i j else 0))"
  by (simp add: tril_def is_mat_def)

lemma triu_is_mat: "is_mat a n m \<Longrightarrow> triu a = Inr (mk_mat n m (\<lambda>i j. if i \<le> j then entry a i j else 0))"
  by (simp add: triu_def is_mat_def)

lemma all_eq_is_mat: "is_mat a n m \<Longrightarrow> is_mat b n m \<Longrightarrow> all_eq a b \<longleftrightarrow> a = b"
  by (auto simp: all_eq_def is_mat_def)

lemma lower_test:
  assumes "is_mat a n m"
  shows "all_eq (mk_mat n m (\<lambda>i j. if j \<le> i then entry a i j else 0)) a \<longleftrightarrow> is_lower a n m"
proof -
  have "all_eq (mk_mat n m (\<lambda>i j. if j \<le> i then entry a i j else 0)) a
      \<longleftrightarrow> mk_mat n m (\<lambda>i j. if j \<le> i then entry a i j else 0) = mk_mat n m (entry a)"
    using all_eq_is_mat [OF is_mat_mk_mat assms] mk_mat_entry [OF assms] by simp
  also have "\<dots> \<longleftrightarrow> is_lower a n m"
    by (auto simp: mk_mat_eq_iff is_lower_def not_le)
  finally show ?thesis .
qed

lemma upper_test:
  assumes "is_mat a n m"
  shows "all_eq (mk_mat n m (\<lambda>i j. if i \<le> j then entry a i j else 0)) a \<longleftrightarrow> is_upper a n m"
proof -
  have "all_eq (mk_mat n m (\<lambda>i j. if i \<le> j then entry a i j else 0)) a
      \<longleftrightarrow> mk_mat n m (\<lambda>i j. if i \<le> j then entry a i j else 0) = mk_mat n m (entry a)"
    using all_eq_is_mat [OF is_mat_mk_mat assms] mk_mat_entry [OF assms] by simp
  also have "\<dots> \<longleftrightarrow> is_upper a n m"
    by (auto simp: mk_mat_eq_iff is_upper_def not_le)
  finally show ?thesis .
qed

section \<open>Construction from a bare array\<close>

text \<open>
  Claim C8, as amended. Constructing a Cholesky operator from a bare matrix issues the
  deprecation advisory and then tests the array: when its entries above the diagonal are zero
  it is wrapped as a factor tagged lower; otherwise, when its entries below the diagonal are
  zero, as a factor tagged upper; otherwise the construction fails with the value error. The
  diagonal is not inspected.
\<close>

theorem init_array:
  assumes "is_mat a n m"
  shows "init (Array a) u =
    ([deprecation],
     if is_lower a n m then Inr \<lparr>root_op = \<lparr>tri_tensor = a, tri_upper = False\<rparr>, upper = u\<rparr>
     else if is_upper a n m then Inr \<lparr>root_op = \<lparr>tri_tensor = a, tri_upper = True\<rparr>, upper = u\<rparr>
     else Inl (ValueError ''chol must be either lower or upper triangular''))"
  using assms
  by (simp add: init_def deprecation_def tril_is_mat triu_is_mat bind_res_def lower_test upper_test)

theorem init_array_witness:
  "init (Array \<lparr>shape = [2, 2], vals = [2, 0, 1, 3]\<rparr>) True =
     ([deprecation], Inr \<lparr>root_op = \<lparr>tri_tensor = \<lparr>shape = [2, 2], vals = [2, 0, 1, 3]\<rparr>, tri_upper = False\<rparr>, upper = True\<rparr>)"
  using init_array [of "\<lparr>shape = [2, 2], vals = [2, 0, 1, 3]\<rparr>" 2 2 True]
  by (simp add: is_mat_def is_lower_def entry_def lessThan_Suc numeral_2_eq_2)

text \<open>Claim C8 as stated fails: the zero matrix, whose diagonal is zero, is accepted and
  wrapped as a lower factor.\<close>

theorem init_zero_array_accepted:
  "snd (init (Array \<lparr>shape = [2, 2], vals = [0, 0, 0, 0]\<rparr>) False) =
     Inr \<lparr>root_op = \<lparr>tri_tensor = \<lparr>shape = [2, 2], vals = [0, 0, 0, 0]\<rparr>, tri_upper = False\<rparr>, upper = False\<rparr>
   \<and> entry \<lparr>shape = [2, 2], vals = [0, 0, 0, 0]\<rparr> 0 0 = 0"
  by code_simp

text \<open>
  Claim C10. In the construction from a bare matrix the lower-triangular test comes first: a
  matrix whose entries above the diagonal are zero, so in particular a diagonal matrix, is
  wrapped as a factor tagged lower whatever the flag \<open>upper\<close> given to the constructor, and
  the flag is stored as given.
\<close>

theorem init_lower_first:
  assumes "is_mat a n m" and "is_lower a n m"
  shows "snd (init (Array a) u) = Inr \<lparr>root_op = \<lparr>tri_tensor = a, tri_upper = False\<rparr>, upper = u\<rparr>"
  using assms
  by (simp add: init_def tril_is_mat bind_res_def lower_test)

theorem init_lower_first_witness:
  "is_upper \<lparr>shape = [2, 2], vals = [2, 0, 0, 3]\<rparr> 2 2 \<and>
   snd (init (Array \<lparr>shape = [2, 2], vals = [2, 0, 0, 3]\<rparr>) True) =
     Inr \<lparr>root_op = \<lparr>tri_tensor = \<lparr>shape = [2, 2], vals = [2, 0, 0, 3]\<rparr>, tri_upper = False\<rparr>, upper = True\<rparr>"
  using init_lower_first [of "\<lparr>shape = [2, 2], vals = [2, 0, 0, 3]\<rparr>" 2 2 True]
  by (simp add: is_mat_def is_lower_def is_upper_def entry_def lessThan_Suc numeral_2_eq_2)

section \<open>Triangular substitution\<close>

lemma sum_split3:
  fixes f :: "nat \<Rightarrow> real"
  assumes "i < n"
  shows "(\<Sum>l<n. f l) = (\<Sum>l<i. f l) + f i + (\<Sum>l\<in>{i<..<n}. f l)"
proof -
  have s: "{..<n} = {..<i} \<union> ({i} \<union> {i<..<n})" using assms by auto
  show ?thesis
    by (subst s, subst sum.union_disjoint) auto
qed

lemma fsub_row:
  fixes L :: "nat \<Rightarrow> nat \<Rightarrow> real"
  assumes "L i i \<noteq> 0"
  shows "(\<Sum>l<i. L i l * fsub L b l) + L i i * fsub L b i = b i"
  using assms by (subst (2) fsub.simps) simp

lemma bsub_row:
  fixes U :: "nat \<Rightarrow> nat \<Rightarrow> real"
  assumes "U i i \<noteq> 0"
  shows "U i i * bsub n U b i + (\<Sum>l\<in>{i<..<n}. U i l * bsub n U b l) = b i"
  using assms by (subst (1) bsub.simps) simp

lemma fsub_correct:
  fixes L :: "nat \<Rightarrow> nat \<Rightarrow> real"
  assumes "i < n" and "L i i \<noteq> 0" and "\<And>l. i < l \<Longrightarrow> l < n \<Longrightarrow> L i l = 0"
  shows "(\<Sum>l<n. L i l * fsub L b l) = b i"
proof -
  have "(\<Sum>l\<in>{i<..<n}. L i l * fsub L b l) = 0"
    using assms(3) by (intro sum.neutral) auto
  then show ?thesis
    using fsub_row [of L i b] assms(2) by (simp add: sum_split3 [OF assms(1)])
qed

lemma bsub_correct:
  fixes U :: "nat \<Rightarrow> nat \<Rightarrow> real"
  assumes "i < n" and "U i i \<noteq> 0" and "\<And>l. l < i \<Longrightarrow> U i l = 0"
  shows "(\<Sum>l<n. U i l * bsub n U b l) = b i"
proof -
  have "(\<Sum>l<i. U i l * bsub n U b l) = 0"
    using assms(3) by (intro sum.neutral) auto
  then show ?thesis
    using bsub_row [of U i n b] assms(2) by (simp add: sum_split3 [OF assms(1)])
qed

lemma lower_unique:
  fixes L :: "nat \<Rightarrow> nat \<Rightarrow> real" and n :: nat
  assumes d: "\<And>i. i < n \<Longrightarrow> L i i \<noteq> 0"
    and lo: "\<And>i l. i < l \<Longrightarrow> l < n \<Longrightarrow> L i l = 0"
    and z: "\<And>i. i < n \<Longrightarrow> (\<Sum>l<n. L i l * x l) = (0::real)"
  shows "i < n \<Longrightarrow> x i = 0"
proof (induction i rule: less_induct)
  case (less i)
  have "(\<Sum>l<i. L i l * x l) = 0"
    using less by (intro sum.neutral) auto
  moreover have "(\<Sum>l\<in>{i<..<n}. L i l * x l) = 0"
    using lo by (intro sum.neutral) auto
  ultimately have "L i i * x i = 0"
    using z [OF less.prems] by (simp add: sum_split3 [OF less.prems])
  then show ?case using d [OF less.prems] by simp
qed

lemma upper_unique:
  fixes U :: "nat \<Rightarrow> nat \<Rightarrow> real" and n :: nat
  assumes d: "\<And>i. i < n \<Longrightarrow> U i i \<noteq> 0"
    and up: "\<And>i l. l < i \<Longrightarrow> i < n \<Longrightarrow> U i l = 0"
    and z: "\<And>i. i < n \<Longrightarrow> (\<Sum>l<n. U i l * x l) = (0::real)"
  shows "i < n \<Longrightarrow> x i = 0"
proof (induction "n - i" arbitrary: i rule: less_induct)
  case less
  have "(\<Sum>l\<in>{i<..<n}. U i l * x l) = 0"
  proof (intro sum.neutral ballI)
    fix l assume "l \<in> {i<..<n}"
    then have "n - l < n - i" "l < n" by auto
    then have "x l = 0" using less(1) by blast
    then show "U i l * x l = 0" by simp
  qed
  moreover have "(\<Sum>l<i. U i l * x l) = 0"
    using up less.prems by (intro sum.neutral) auto
  ultimately have "U i i * x i = 0"
    using z [OF less.prems] by (simp add: sum_split3 [OF less.prems])
  then show ?case using d [OF less.prems] by simp
qed

section \<open>The factor and the matrix of the operator\<close>

lemma is_mat_shape: "is_mat a n m \<Longrightarrow> shape a = [n, m]"
  by (simp add: is_mat_def)

lemma matmul_mat:
  "is_mat a n m \<Longrightarrow> is_mat b m k \<Longrightarrow>
   matmul a b = Inr (mk_mat n k (\<lambda>i j. \<Sum>l<m. entry a i l * entry b l j))"
  by (simp add: matmul_def is_mat_def)

lemma transpose_mat:
  "is_mat a n m \<Longrightarrow> transpose_t a = Inr (mk_mat m n (\<lambda>i j. entry a j i))"
  by (simp add: transpose_t_def is_mat_def)

lemma solve_triangular_mat:
  "is_mat a n n \<Longrightarrow> is_mat b n k \<Longrightarrow>
   solve_triangular a b u = Inr (mk_mat n k (\<lambda>i j.
     if u then bsub n (entry a) (\<lambda>r. entry b r j) i else fsub (entry a) (\<lambda>r. entry b r j) i))"
  by (simp add: solve_triangular_def is_mat_def)

lemma tri_solve_mat:
  assumes v: "valid_factor r n" and b: "is_mat b n k"
  shows "\<exists>x. tri_solve r b = Inr x \<and> is_mat x n k \<and>
     (\<forall>i<n. \<forall>j<k. (\<Sum>l<n. entry (tri_tensor r) i l * entry x l j) = entry b i j)"
proof -
  let ?R = "tri_tensor r"
  let ?f = "\<lambda>i j. if tri_upper r then bsub n (entry ?R) (\<lambda>r. entry b r j) i
             else fsub (entry ?R) (\<lambda>r. entry b r j) i"
  have m: "is_mat ?R n n" and d: "\<And>i. i < n \<Longrightarrow> entry ?R i i \<noteq> 0"
    using v by (auto simp: valid_factor_def)
  have s: "tri_solve r b = Inr (mk_mat n k ?f)"
    using b by (simp add: tri_solve_def ndim_def is_mat_shape solve_triangular_mat [OF m b])
  have "(\<Sum>l<n. entry ?R i l * entry (mk_mat n k ?f) l j) = entry b i j" if "i < n" "j < k" for i j
  proof -
    have "(\<Sum>l<n. entry ?R i l * entry (mk_mat n k ?f) l j) = (\<Sum>l<n. entry ?R i l * ?f l j)"
      using that by (intro sum.cong) auto
    also have "\<dots> = entry b i j"
    proof (cases "tri_upper r")
      case True
      then have "\<And>l. l < i \<Longrightarrow> entry ?R i l = 0"
        using v that by (auto simp: valid_factor_def is_upper_def)
      then show ?thesis
        using True bsub_correct [of i n "entry ?R" "\<lambda>r. entry b r j"] that d by simp
    next
      case False
      then have "\<And>l. i < l \<Longrightarrow> l < n \<Longrightarrow> entry ?R i l = 0"
        using v that by (auto simp: valid_factor_def is_lower_def)
      then show ?thesis
        using False fsub_correct [of i n "entry ?R" "\<lambda>r. entry b r j"] that d by simp
    qed
    finally show ?thesis .
  qed
  then show ?thesis using s by auto
qed

lemma tri_transpose_valid:
  assumes v: "valid_factor r n"
  shows "\<exists>rt. tri_transpose_nonbatch r = Inr rt \<and> valid_factor rt n \<and>
     (\<forall>i<n. \<forall>j<n. entry (tri_tensor rt) i j = entry (tri_tensor r) j i)"
proof -
  have m: "is_mat (tri_tensor r) n n" using v by (simp add: valid_factor_def)
  show ?thesis
    using v
    by (auto simp: tri_transpose_nonbatch_def transpose_mat [OF m] bind_res_def valid_factor_def
        is_upper_def is_lower_def)
qed

lemma factor_unique:
  assumes v: "valid_factor r n"
    and z: "\<And>i. i < n \<Longrightarrow> (\<Sum>l<n. entry (tri_tensor r) i l * x l) = 0"
    and i: "i < n"
  shows "x i = 0"
proof (cases "tri_upper r")
  case True
  show ?thesis
  proof (rule upper_unique [of n "entry (tri_tensor r)" x, OF _ _ z i])
    show "\<And>i. i < n \<Longrightarrow> entry (tri_tensor r) i i \<noteq> 0"
      using v by (simp add: valid_factor_def)
    show "\<And>i l. l < i \<Longrightarrow> i < n \<Longrightarrow> entry (tri_tensor r) i l = 0"
      using v True by (auto simp: valid_factor_def is_upper_def)
  qed
next
  case False
  show ?thesis
  proof (rule lower_unique [of n "entry (tri_tensor r)" x, OF _ _ z i])
    show "\<And>i. i < n \<Longrightarrow> entry (tri_tensor r) i i \<noteq> 0"
      using v by (simp add: valid_factor_def)
    show "\<And>i l. i < l \<Longrightarrow> l < n \<Longrightarrow> entry (tri_tensor r) i l = 0"
      using v False by (auto simp: valid_factor_def is_lower_def)
  qed
qed

lemma to_dense_mat:
  assumes m: "is_mat (tri_tensor (root_op self)) n n"
  shows "to_dense self = Inr (mk_mat n n (gram (upper self) n (tri_tensor (root_op self))))"
proof -
  let ?R = "tri_tensor (root_op self)"
  have t: "tri_transpose_nonbatch (root_op self) =
      Inr \<lparr>tri_tensor = mk_mat n n (\<lambda>i j. entry ?R j i), tri_upper = \<not> tri_upper (root_op self)\<rparr>"
    by (simp add: tri_transpose_nonbatch_def transpose_mat [OF m] bind_res_def)
  show ?thesis
  proof (cases "upper self")
    case True
    have "mk_mat n n (\<lambda>i j. \<Sum>l<n. entry (mk_mat n n (\<lambda>i j. entry ?R j i)) i l * entry ?R l j)
        = mk_mat n n (gram True n ?R)"
      by (simp add: mk_mat_eq_iff gram_def)
    then show ?thesis
      using True by (simp add: to_dense_def t bind_res_def tri_matmul_def Let_def
          matmul_mat [OF is_mat_mk_mat m])
  next
    case False
    have "mk_mat n n (\<lambda>i j. \<Sum>l<n. entry ?R i l * entry (mk_mat n n (\<lambda>i j. entry ?R j i)) l j)
        = mk_mat n n (gram False n ?R)"
      by (simp add: mk_mat_eq_iff gram_def)
    then show ?thesis
      using False by (simp add: to_dense_def t bind_res_def tri_matmul_def Let_def
          matmul_mat [OF m is_mat_mk_mat])
  qed
qed




lemma entry1_mk_vec [simp]: "i < n \<Longrightarrow> entry1 (mk_vec n f) i = f i"
  by (simp add: entry1_def mk_vec_def)

lemma is_vec_mk_vec [simp]: "is_vec (mk_vec n f) n"
  by (simp add: is_vec_def mk_vec_def)

lemma mk_vec_eq_iff: "mk_vec n f = mk_vec n g \<longleftrightarrow> (\<forall>i<n. f i = g i)"
  by (auto simp: mk_vec_def)



lemma unsqueeze_vec:
  assumes "is_vec b n"
  shows "is_mat (unsqueeze_last b) n 1" and "entry (unsqueeze_last b) i 0 = entry1 b i"
    and "ndim b = 1"
  using assms by (simp_all add: is_vec_def is_mat_def unsqueeze_last_def entry_def entry1_def ndim_def)

lemma squeeze_column:
  assumes "is_mat x n 1"
  shows "is_vec (squeeze_last x) n" and "entry1 (squeeze_last x) i = entry x i 0"
  using assms by (simp_all add: is_vec_def is_mat_def squeeze_last_def entry_def entry1_def)

lemma valid_ex_lower: "valid_factor (root_op ex_lower) 2"
  by (simp add: valid_factor_def ex_lower_def is_mat_def is_lower_def entry_def lessThan_Suc numeral_2_eq_2)

lemma valid_ex_upper: "valid_factor (root_op ex_upper) 2"
  by (simp add: valid_factor_def ex_upper_def is_mat_def is_upper_def entry_def lessThan_Suc numeral_2_eq_2)


lemma valid_ex_mismatch: "valid_factor (root_op ex_mismatch) 2"
  by (simp add: valid_factor_def ex_mismatch_def is_mat_def is_lower_def entry_def lessThan_Suc numeral_2_eq_2)

lemma flag_factor_matching:
  "tri_upper (root_op self) = upper self \<Longrightarrow> flag_factor self = root_op self"
  by (simp add: flag_factor_def)

section \<open>Linear solves\<close>




text \<open>The scenario of the specification: for the lower factor \<open>[[2, 0], [1, 3]]\<close> the
  solution of \<open>A x = [4, 2]\<close> is \<open>[1, 0]\<close>; the upper operator of the same matrix gives the
  same solution.\<close>

lemma solve_scenario: "solve ex_lower \<lparr>shape = [2], vals = [4, 2]\<rparr> None = Inr \<lparr>shape = [2], vals = [1, 0]\<rparr>"
  by code_simp

lemma solve_scenario_upper: "solve ex_upper \<lparr>shape = [2, 1], vals = [4, 2]\<rparr> None = Inr \<lparr>shape = [2, 1], vals = [1, 0]\<rparr>"
  by code_simp

text \<open>\<open>solve\<close> reads the factor through \<open>_cholesky_solve\<close>, which needs a matrix: the steps
  of \<open>solve\<close> that make a column of a vector and a vector of the solution are what lets it
  take a vector.\<close>

lemma tri_cholesky_solve_vector:
  "tri_cholesky_solve (root_op ex_lower) \<lparr>shape = [2], vals = [4, 2]\<rparr> False =
     Inl (RuntimeError (Runtime ''solve_triangular: The input tensor must have at least 2 dimensions''))"
  by code_simp

text \<open>The quadratic form of the operator with the lower tag and the flag \<open>upper\<close> agrees
  with \<open>to_dense()\<close>, where \<open>solve\<close> does not: for \<open>A = [[5, 4], [4, 16]]\<close> and
  \<open>b = [5, 4]\<close>, \<open>b\<^sup>T A\<^sup>-\<^sup>1 b = 5\<close>.\<close>

lemma inv_quad_mismatch_example:
  "inv_quad ex_mismatch \<lparr>shape = [2, 1], vals = [5, 4]\<rparr> True = Inr \<lparr>shape = [], vals = [5]\<rparr>"
  by code_simp

section \<open>The orientation \<open>upper\<close> in the diagonal and in the inverse root\<close>

text \<open>
  Claim C1 at the upper operator of the examples, whose factor is \<open>[[2, 1], [0, 3]]\<close>:
  \<open>_diagonal\<close> returns the row-wise sums of squares \<open>[5, 9]\<close>, which is the diagonal of
  \<open>R R\<^sup>T\<close>, while \<open>to_dense()\<close> is \<open>R\<^sup>T R = [[4, 2], [2, 10]]\<close> with diagonal \<open>[4, 10]\<close>.
\<close>

theorem diagonal_upper_example:
  "diagonal ex_upper = Inr \<lparr>shape = [2], vals = [5, 9]\<rparr> \<and>
   to_dense ex_upper = Inr \<lparr>shape = [2, 2], vals = [4, 2, 2, 10]\<rparr>"
  by code_simp

text \<open>
  Claim C2 at the same operator: the root returned by \<open>root_inv_decomposition\<close> represents
  \<open>R\<^sup>-\<^sup>T R\<^sup>-\<^sup>1\<close>, which is not the inverse \<open>R\<^sup>-\<^sup>1 R\<^sup>-\<^sup>T\<close> of \<open>R\<^sup>T R\<close> that \<open>inverse()\<close>
  represents; its product with \<open>to_dense()\<close> is not the identity.
\<close>

theorem root_inv_decomposition_upper_example:
  "bind_res (root_inv_decomposition ex_upper () () ()) root_to_dense =
     Inr \<lparr>shape = [2, 2], vals = [1 / 4, - 1 / 12, - 1 / 12, 5 / 36]\<rparr> \<and>
   bind_res (inverse_op ex_upper) to_dense =
     Inr \<lparr>shape = [2, 2], vals = [5 / 18, - 1 / 18, - 1 / 18, 1 / 9]\<rparr> \<and>
   matmul \<lparr>shape = [2, 2], vals = [1 / 4, - 1 / 12, - 1 / 12, 5 / 36]\<rparr> \<lparr>shape = [2, 2], vals = [4, 2, 2, 10]\<rparr> =
     Inr \<lparr>shape = [2, 2], vals = [5 / 6, - 1 / 3, - 1 / 18, 11 / 9]\<rparr>"
  by code_simp

section \<open>The round trip through \<open>inverse\<close>\<close>

text \<open>
  Claim C3 at the lower operator of the examples: \<open>inverse()\<close> tags the inverse of the lower
  factor, which is lower triangular, as upper; the second inversion therefore substitutes
  backwards through its upper triangle only, and \<open>inverse().inverse()\<close> represents
  \<open>[[4, 0], [0, 9]]\<close> and not \<open>[[4, 2], [2, 10]]\<close>.
\<close>

theorem inverse_round_trip_example:
  "bind_res (inverse_op ex_lower) (\<lambda>i. bind_res (inverse_op i) to_dense) =
     Inr \<lparr>shape = [2, 2], vals = [4, 0, 0, 9]\<rparr> \<and>
   to_dense ex_lower = Inr \<lparr>shape = [2, 2], vals = [4, 2, 2, 10]\<rparr>"
  by code_simp

section \<open>A vector as right-hand side of the quadratic form\<close>

lemma inv_quad_vector_example:
  "inv_quad ex_lower \<lparr>shape = [2], vals = [4, 2]\<rparr> True = Inl (IndexError ''Dimension out of range'')"
  by code_simp

text \<open>
  Claim C7 at the lower operator of the examples and the vector \<open>[4, 2]\<close>: the vector passes
  the shape checks of \<open>inv_quad_logdet\<close>, and \<open>inv_quad\<close> then fails, because the solution of
  the triangular system is a vector again and has no second-to-last dimension to sum over.
\<close>

theorem inv_quad_logdet_vector_example:
  "inv_quad_logdet ex_lower (Some \<lparr>shape = [2], vals = [4, 2]\<rparr>) False True =
     Inl (IndexError ''Dimension out of range'')"
proof -
  have "size_op ex_lower = Inr [2, 2]" by code_simp
  moreover have "is_square [2, 2]" by code_simp
  moreover have "dim_op [2, 2] = 2" by code_simp
  moreover have "inv_quad ex_lower \<lparr>shape = [2], vals = [4, 2]\<rparr> True = Inl (IndexError ''Dimension out of range'')"
    by code_simp
  ultimately show ?thesis
    by (simp add: inv_quad_logdet_def ndim_def numel_def bind_res_def)
qed

section \<open>The inverse of the factor\<close>

lemma sum_delta_row:
  fixes f :: "nat \<Rightarrow> real"
  assumes "a < n"
  shows "(\<Sum>l<n. (if a = l then 1 else 0) * f l) = f a"
    and "(\<Sum>l<n. f l * (if l = a then 1 else 0)) = f a"
proof -
  have "(\<Sum>l<n. (if a = l then 1 else 0) * f l) = (\<Sum>l<n. if a = l then f l else 0)"
    by (intro sum.cong) auto
  then show "(\<Sum>l<n. (if a = l then 1 else 0) * f l) = f a"
    using assms by simp
  have "(\<Sum>l<n. f l * (if l = a then 1 else 0)) = (\<Sum>l<n. if l = a then f l else 0)"
    by (intro sum.cong) auto
  then show "(\<Sum>l<n. f l * (if l = a then 1 else 0)) = f a"
    using assms by simp
qed

lemma entry_eye: "i < n \<Longrightarrow> j < n \<Longrightarrow> entry (eye n) i j = (if i = j then 1 else 0)"
  by (simp add: eye_def)

lemma is_mat_eye: "is_mat (eye n) n n"
  by (simp add: eye_def)

lemma tri_inverse_mat:
  assumes v: "valid_factor r n"
  shows "\<exists>x. tri_inverse r = Inr \<lparr>tri_tensor = x, tri_upper = tri_upper r\<rparr> \<and> is_mat x n n \<and>
     (\<forall>i<n. \<forall>j<n. (\<Sum>l<n. entry (tri_tensor r) i l * entry x l j) = (if i = j then 1 else 0)) \<and>
     (\<forall>i<n. \<forall>j<n. (\<Sum>l<n. entry x i l * entry (tri_tensor r) l j) = (if i = j then 1 else 0))"
proof -
  let ?R = "tri_tensor r"
  have m: "is_mat ?R n n" using v by (simp add: valid_factor_def)
  obtain x where x: "tri_solve r (eye n) = Inr x" "is_mat x n n"
    and xe0: "\<forall>i<n. \<forall>j<n. (\<Sum>l<n. entry ?R i l * entry x l j) = entry (eye n) i j"
    using tri_solve_mat [OF v is_mat_eye] by (elim exE conjE)
  have right: "(\<Sum>l<n. entry ?R i l * entry x l j) = (if i = j then 1 else 0)" if "i < n" "j < n" for i j
    using xe0 that by (simp add: entry_eye)
  have left: "(\<Sum>l<n. entry x i l * entry ?R l j) = (if i = j then 1 else 0)" if i: "i < n" and j: "j < n" for i j
  proof -
    let ?e = "\<lambda>i. (\<Sum>l<n. entry x i l * entry ?R l j) - (if i = j then 1 else 0)"
    have "(\<Sum>i<n. entry ?R a i * ?e i) = 0" if a: "a < n" for a
    proof -
      have "(\<Sum>i<n. entry ?R a i * (\<Sum>l<n. entry x i l * entry ?R l j))
          = (\<Sum>i<n. \<Sum>l<n. (entry ?R a i * entry x i l) * entry ?R l j)"
        by (simp add: sum_distrib_left mult.assoc)
      also have "\<dots> = (\<Sum>l<n. \<Sum>i<n. (entry ?R a i * entry x i l) * entry ?R l j)"
        by (rule sum.swap)
      also have "\<dots> = (\<Sum>l<n. (\<Sum>i<n. entry ?R a i * entry x i l) * entry ?R l j)"
        by (simp add: sum_distrib_right)
      also have "\<dots> = (\<Sum>l<n. (if a = l then 1 else 0) * entry ?R l j)"
        using a by (intro sum.cong refl) (simp add: right)
      also have "\<dots> = entry ?R a j"
        by (rule sum_delta_row(1) [OF a])
      finally have 1: "(\<Sum>i<n. entry ?R a i * (\<Sum>l<n. entry x i l * entry ?R l j)) = entry ?R a j" .
      have 2: "(\<Sum>i<n. entry ?R a i * (if i = j then 1 else 0)) = entry ?R a j"
        by (rule sum_delta_row(2) [OF j])
      show ?thesis
        using 1 2 by (simp add: right_diff_distrib sum_subtractf)
    qed
    then have "?e i = 0"
      by (rule factor_unique [OF v _ i])
    then show ?thesis by simp
  qed
  have "size_last (shape ?R) = Inr n" using m by (simp add: is_mat_def)
  then have "tri_inverse r = Inr \<lparr>tri_tensor = x, tri_upper = tri_upper r\<rparr>"
    using x(1) by (simp add: tri_inverse_def bind_res_def)
  then show ?thesis using x(2) right left by blast
qed

lemma sum_assoc3:
  fixes a :: "nat \<Rightarrow> real"
  shows "(\<Sum>l<n. a l * (\<Sum>m<k. b l m * c m)) = (\<Sum>m<k. (\<Sum>l<n. a l * b l m) * c m)"
proof -
  have "(\<Sum>l<n. a l * (\<Sum>m<k. b l m * c m)) = (\<Sum>l<n. \<Sum>m<k. (a l * b l m) * c m)"
    by (simp add: sum_distrib_left mult.assoc)
  also have "\<dots> = (\<Sum>m<k. \<Sum>l<n. (a l * b l m) * c m)"
    by (rule sum.swap)
  finally show ?thesis by (simp add: sum_distrib_right)
qed

lemma sum_gram_form:
  fixes t :: "nat \<Rightarrow> real"
  shows "(\<Sum>j<n. (\<Sum>i<n. t i * (\<Sum>p<n. f p i * g p j)) * s j)
       = (\<Sum>p<n. (\<Sum>i<n. f p i * t i) * (\<Sum>j<n. g p j * s j))"
proof -
  have "(\<Sum>j<n. (\<Sum>i<n. t i * (\<Sum>p<n. f p i * g p j)) * s j)
      = (\<Sum>j<n. \<Sum>i<n. \<Sum>p<n. (f p i * t i) * (g p j * s j))"
    by (simp add: sum_distrib_left sum_distrib_right mult_ac)
  also have "\<dots> = (\<Sum>j<n. \<Sum>p<n. \<Sum>i<n. (f p i * t i) * (g p j * s j))"
    by (intro sum.cong refl sum.swap)
  also have "\<dots> = (\<Sum>p<n. \<Sum>j<n. \<Sum>i<n. (f p i * t i) * (g p j * s j))"
    by (rule sum.swap)
  also have "\<dots> = (\<Sum>p<n. \<Sum>i<n. \<Sum>j<n. (f p i * t i) * (g p j * s j))"
    by (intro sum.cong refl sum.swap)
  also have "\<dots> = (\<Sum>p<n. (\<Sum>i<n. f p i * t i) * (\<Sum>j<n. g p j * s j))"
    by (simp add: sum_product)
  finally show ?thesis .
qed

lemma pow2_mat:
  assumes "is_mat y n k"
  shows "is_mat (pow2 y) n k" and "i < n \<Longrightarrow> j < k \<Longrightarrow> entry (pow2 y) i j = (entry y i j)\<^sup>2"
  using assms by (simp_all add: is_mat_def pow2_def entry_def flat_index_less)

lemma sum_rows_mat:
  "is_mat a n k \<Longrightarrow> sum_rows a = Inr (mk_vec k (\<lambda>j. \<Sum>i<n. entry a i j))"
  by (simp add: sum_rows_def is_mat_def)

lemma sum_last_vec:
  "is_vec a k \<Longrightarrow> sum_last a = Inr (mk_scalar (\<Sum>j<k. entry1 a j))"
  by (simp add: sum_last_def is_vec_def)

lemma sum_last_mat:
  "is_mat a n k \<Longrightarrow> sum_last a = Inr (mk_vec n (\<lambda>i. \<Sum>j<k. entry a i j))"
  by (simp add: sum_last_def is_mat_def)

lemma numel_mk_vec [simp]: "numel (mk_vec k f) = k"
  by (simp add: numel_def mk_vec_def)

lemma inverse_op_mat:
  assumes v: "valid_factor (root_op self) n"
  shows "\<exists>x. inverse_op self = Inr \<lparr>root_op = \<lparr>tri_tensor = x, tri_upper = \<not> upper self\<rparr>, upper = \<not> upper self\<rparr> \<and>
     is_mat x n n \<and>
     (\<forall>i<n. \<forall>j<n. (\<Sum>l<n. entry (tri_tensor (root_op self)) i l * entry x l j) = (if i = j then 1 else 0)) \<and>
     (\<forall>i<n. \<forall>j<n. (\<Sum>l<n. entry x i l * entry (tri_tensor (root_op self)) l j) = (if i = j then 1 else 0))"
proof -
  obtain x where x: "tri_inverse (root_op self) = Inr \<lparr>tri_tensor = x, tri_upper = tri_upper (root_op self)\<rparr>"
    and r: "is_mat x n n"
      "\<forall>i<n. \<forall>j<n. (\<Sum>l<n. entry (tri_tensor (root_op self)) i l * entry x l j) = (if i = j then 1 else 0)"
      "\<forall>i<n. \<forall>j<n. (\<Sum>l<n. entry x i l * entry (tri_tensor (root_op self)) l j) = (if i = j then 1 else 0)"
    using tri_inverse_mat [OF v] by (elim exE conjE)
  have "inverse_op self = Inr \<lparr>root_op = \<lparr>tri_tensor = x, tri_upper = \<not> upper self\<rparr>, upper = \<not> upper self\<rparr>"
    by (simp add: inverse_op_def x bind_res_def init_def)
  then show ?thesis using r by blast
qed

text \<open>The dense form of \<open>inverse()\<close> is a left inverse of the dense form of the operator, in
  both orientations.\<close>

lemma gram_inverse_product:
  fixes F G :: "nat \<Rightarrow> nat \<Rightarrow> real"
  assumes FG: "\<And>p q. p < n \<Longrightarrow> q < n \<Longrightarrow> (\<Sum>j<n. F p j * G j q) = (if p = q then 1 else 0)"
    and b: "b < n"
  shows "(\<Sum>j<n. (\<Sum>p<n. F p a * F p j) * (\<Sum>q<n. G j q * G b q)) = (\<Sum>p<n. F p a * G b p)"
proof -
  have "(\<Sum>j<n. (\<Sum>p<n. F p a * F p j) * (\<Sum>q<n. G j q * G b q))
      = (\<Sum>p<n. F p a * (\<Sum>j<n. F p j * (\<Sum>q<n. G j q * G b q)))"
    by (rule sum_assoc3 [symmetric])
  also have "\<dots> = (\<Sum>p<n. F p a * G b p)"
  proof (intro sum.cong refl arg_cong2 [where f = "(*)"])
    fix p assume "p \<in> {..<n}"
    then have p: "p < n" by simp
    have "(\<Sum>j<n. F p j * (\<Sum>q<n. G j q * G b q)) = (\<Sum>q<n. (\<Sum>j<n. F p j * G j q) * G b q)"
      by (rule sum_assoc3)
    also have "\<dots> = (\<Sum>q<n. (if p = q then 1 else 0) * G b q)"
      using p by (intro sum.cong refl) (simp add: FG)
    also have "\<dots> = G b p" by (rule sum_delta_row(1) [OF p])
    finally show "(\<Sum>j<n. F p j * (\<Sum>q<n. G j q * G b q)) = G b p" .
  qed
  finally show ?thesis .
qed

lemma inverse_op_dense:
  assumes v: "valid_factor (root_op self) n"
  shows "\<exists>ai a. bind_res (inverse_op self) to_dense = Inr ai \<and> to_dense self = Inr a \<and>
           matmul ai a = Inr (eye n)"
proof -
  let ?R = "tri_tensor (root_op self)"
  let ?u = "upper self"
  have m: "is_mat ?R n n" using v by (simp add: valid_factor_def)
  obtain x where x: "inverse_op self = Inr \<lparr>root_op = \<lparr>tri_tensor = x, tri_upper = \<not> ?u\<rparr>, upper = \<not> ?u\<rparr>"
    and xm: "is_mat x n n"
    and right0: "\<forall>i<n. \<forall>j<n. (\<Sum>l<n. entry ?R i l * entry x l j) = (if i = j then 1 else 0)"
    and left0: "\<forall>i<n. \<forall>j<n. (\<Sum>l<n. entry x i l * entry ?R l j) = (if i = j then 1 else 0)"
    using inverse_op_mat [OF v] by (elim exE conjE)
  let ?Ai = "gram (\<not> ?u) n x"
  let ?A = "gram ?u n ?R"
  have td: "to_dense \<lparr>root_op = \<lparr>tri_tensor = x, tri_upper = \<not> ?u\<rparr>, upper = \<not> ?u\<rparr> = Inr (mk_mat n n ?Ai)"
    using to_dense_mat [of "\<lparr>root_op = \<lparr>tri_tensor = x, tri_upper = \<not> ?u\<rparr>, upper = \<not> ?u\<rparr>" n] xm by simp
  have a: "to_dense self = Inr (mk_mat n n ?A)" by (rule to_dense_mat [OF m])
  have prod: "(\<Sum>j<n. ?Ai a j * ?A j b) = (if a = b then 1 else 0)" if a: "a < n" and b: "b < n" for a b
  proof (cases ?u)
    case False
    have "(\<Sum>j<n. (\<Sum>p<n. entry x p a * entry x p j) * (\<Sum>q<n. entry ?R j q * entry ?R b q))
        = (\<Sum>p<n. entry x p a * entry ?R b p)"
      using right0 left0 by (intro gram_inverse_product [OF _ b]) simp
    also have "\<dots> = (\<Sum>p<n. entry ?R b p * entry x p a)"
      by (simp add: mult.commute)
    also have "\<dots> = (if a = b then 1 else 0)"
      using right0 a b by auto
    finally show ?thesis using False by (simp add: gram_def)
  next
    case True
    have "(\<Sum>j<n. (\<Sum>p<n. entry x a p * entry x j p) * (\<Sum>q<n. entry ?R q j * entry ?R q b))
        = (\<Sum>p<n. entry x a p * entry ?R p b)"
    proof (rule gram_inverse_product [of n "\<lambda>p j. entry x j p" "\<lambda>j q. entry ?R q j", OF _ b])
      fix p q assume pq: "p < n" "q < n"
      have "(\<Sum>j<n. entry x j p * entry ?R q j) = (\<Sum>j<n. entry ?R q j * entry x j p)"
        by (simp add: mult.commute)
      then show "(\<Sum>j<n. entry x j p * entry ?R q j) = (if p = q then 1 else 0)"
        using right0 pq by auto
    qed
    also have "\<dots> = (if a = b then 1 else 0)"
      using left0 a b by simp
    finally show ?thesis using True by (simp add: gram_def)
  qed
  have "(\<Sum>j<n. entry (mk_mat n n ?Ai) a j * entry (mk_mat n n ?A) j b) = (if a = b then 1 else 0)"
    if a: "a < n" and b: "b < n" for a b
  proof -
    have "(\<Sum>j<n. entry (mk_mat n n ?Ai) a j * entry (mk_mat n n ?A) j b) = (\<Sum>j<n. ?Ai a j * ?A j b)"
      using a b by (intro sum.cong refl) simp
    then show ?thesis using prod [OF a b] by simp
  qed
  then have "mk_mat n n (\<lambda>a b. \<Sum>j<n. entry (mk_mat n n ?Ai) a j * entry (mk_mat n n ?A) j b) = eye n"
    unfolding eye_def mk_mat_eq_iff by blast
  then have "matmul (mk_mat n n ?Ai) (mk_mat n n ?A) = Inr (eye n)"
    by (simp add: matmul_mat [OF is_mat_mk_mat is_mat_mk_mat])
  then show ?thesis using a td x by (simp add: bind_res_def)
qed

section \<open>The quadratic form\<close>

text \<open>
  Claim C5, as amended. Let the factor of a Cholesky operator be a valid triangular factor of
  size \<open>n\<close>, and \<open>T\<close> a matrix of \<open>n\<close> rows and \<open>k\<close> columns. Then \<open>inv_quad\<close> solves
  \<open>R Y = T\<close>, or \<open>R\<^sup>T Y = T\<close> when \<open>upper\<close> is set. Without reduction it returns the sums of
  \<open>Y\<^sup>2\<close> over the solved dimension, one per column, which is the diagonal of
  \<open>T\<^sup>T A\<^sup>-\<^sup>1 T\<close> with \<open>A\<^sup>-\<^sup>1\<close> the dense form of \<open>inverse()\<close>. With reduction, and when \<open>T\<close> has
  at least one column, it returns the sum of these over the columns, which is the trace of
  \<open>T\<^sup>T A\<^sup>-\<^sup>1 T\<close>.
\<close>

theorem inv_quad_correct:
  assumes v: "valid_factor (root_op self) n" and t: "is_mat t n k"
  shows "\<exists>y q.
     (if upper self then bind_res (tri_transpose_nonbatch (root_op self)) (\<lambda>rt. tri_solve rt t)
      else tri_solve (root_op self) t) = Inr y \<and>
     is_mat y n k \<and>
     (\<forall>i<n. \<forall>j<k. (\<Sum>l<n. (if upper self then entry (tri_tensor (root_op self)) l i
                                else entry (tri_tensor (root_op self)) i l) * entry y l j) = entry t i j) \<and>
     inv_quad self t False = Inr (mk_vec k (\<lambda>j. \<Sum>i<n. (entry y i j)\<^sup>2)) \<and>
     quad_matrix self t = Inr q \<and>
     diag_sh (shape q) q = inv_quad self t False \<and>
     (0 < k \<longrightarrow> inv_quad self t True = Inr (mk_scalar (\<Sum>j<k. \<Sum>i<n. (entry y i j)\<^sup>2)) \<and>
                trace_t q = inv_quad self t True)"
proof -
  let ?R = "tri_tensor (root_op self)"
  let ?u = "upper self"
  obtain rt where rt: "tri_transpose_nonbatch (root_op self) = Inr rt" "valid_factor rt n"
    and rte0: "\<forall>i<n. \<forall>j<n. entry (tri_tensor rt) i j = entry ?R j i"
    using tri_transpose_valid [OF v] by (elim exE conjE)
  define F where "F = (if ?u then rt else root_op self)"
  have vF: "valid_factor F n" using v rt(2) by (simp add: F_def)
  have Fe: "entry (tri_tensor F) i l = (if ?u then entry ?R l i else entry ?R i l)" if "i < n" "l < n" for i l
    using rte0 that by (simp add: F_def)
  have solved: "(if ?u then bind_res (tri_transpose_nonbatch (root_op self)) (\<lambda>rt. tri_solve rt t)
      else tri_solve (root_op self) t) = tri_solve F t"
    by (simp add: F_def rt(1) bind_res_def)
  obtain y where y: "tri_solve F t = Inr y" "is_mat y n k"
    and ye0: "\<forall>i<n. \<forall>j<k. (\<Sum>l<n. entry (tri_tensor F) i l * entry y l j) = entry t i j"
    using tri_solve_mat [OF vF t] by (elim exE conjE)
  have ye: "(\<Sum>l<n. (if ?u then entry ?R l i else entry ?R i l) * entry y l j) = entry t i j"
    if "i < n" "j < k" for i j
  proof -
    have "(\<Sum>l<n. (if ?u then entry ?R l i else entry ?R i l) * entry y l j)
        = (\<Sum>l<n. entry (tri_tensor F) i l * entry y l j)"
      using that by (intro sum.cong refl) (simp add: Fe)
    then show ?thesis using ye0 that by simp
  qed
  let ?g = "\<lambda>j. \<Sum>i<n. (entry y i j)\<^sup>2"
  have "mk_vec k (\<lambda>j. \<Sum>i<n. entry (pow2 y) i j) = mk_vec k ?g"
    unfolding mk_vec_eq_iff using pow2_mat(2) [OF y(2)] by simp
  then have sr: "sum_rows (pow2 y) = Inr (mk_vec k ?g)"
    by (simp add: sum_rows_mat [OF pow2_mat(1) [OF y(2)]])
  have iqF: "inv_quad self t False = Inr (mk_vec k ?g)"
    unfolding inv_quad_def solved by (simp add: y(1) sr bind_res_def)
  have "mk_scalar (\<Sum>j<k. entry1 (mk_vec k ?g) j) = mk_scalar (\<Sum>j<k. ?g j)"
    by simp
  then have sl: "sum_last (mk_vec k ?g) = Inr (mk_scalar (\<Sum>j<k. ?g j))"
    by (simp add: sum_last_vec [OF is_vec_mk_vec])
  have iqT: "inv_quad self t True = Inr (mk_scalar (\<Sum>j<k. ?g j))" if "0 < k"
    unfolding inv_quad_def solved using that by (simp add: y(1) sr sl bind_res_def)
  obtain x where x: "inverse_op self = Inr \<lparr>root_op = \<lparr>tri_tensor = x, tri_upper = \<not> ?u\<rparr>, upper = \<not> ?u\<rparr>"
    and xm: "is_mat x n n"
    and right0: "\<forall>i<n. \<forall>j<n. (\<Sum>l<n. entry ?R i l * entry x l j) = (if i = j then 1 else 0)"
    and left0: "\<forall>i<n. \<forall>j<n. (\<Sum>l<n. entry x i l * entry ?R l j) = (if i = j then 1 else 0)"
    using inverse_op_mat [OF v] by (elim exE conjE)
  let ?f = "\<lambda>p i. if ?u then entry x i p else entry x p i"
  let ?Ai = "gram (\<not> ?u) n x"
  let ?Q = "\<lambda>a b. \<Sum>j<n. (\<Sum>i<n. entry t i a * ?Ai i j) * entry t j b"
  let ?Z = "\<lambda>p c. \<Sum>i<n. ?f p i * entry t i c"
  have Ai: "?Ai i j = (\<Sum>p<n. ?f p i * ?f p j)" for i j
    by (simp add: gram_def)
  have td: "to_dense \<lparr>root_op = \<lparr>tri_tensor = x, tri_upper = \<not> ?u\<rparr>, upper = \<not> ?u\<rparr> = Inr (mk_mat n n ?Ai)"
    using to_dense_mat [of "\<lparr>root_op = \<lparr>tri_tensor = x, tri_upper = \<not> ?u\<rparr>, upper = \<not> ?u\<rparr>" n] xm by simp
  have tt: "transpose_t t = Inr (mk_mat k n (\<lambda>i j. entry t j i))"
    by (rule transpose_mat [OF t])
  have "mk_mat k n (\<lambda>a j. \<Sum>i<n. entry (mk_mat k n (\<lambda>i j. entry t j i)) a i * entry (mk_mat n n ?Ai) i j)
      = mk_mat k n (\<lambda>a j. \<Sum>i<n. entry t i a * ?Ai i j)"
    unfolding mk_mat_eq_iff by (intro allI impI sum.cong refl) simp
  then have m1: "matmul (mk_mat k n (\<lambda>i j. entry t j i)) (mk_mat n n ?Ai)
      = Inr (mk_mat k n (\<lambda>a j. \<Sum>i<n. entry t i a * ?Ai i j))"
    by (simp add: matmul_mat [OF is_mat_mk_mat is_mat_mk_mat])
  have "mk_mat k k (\<lambda>a b. \<Sum>j<n. entry (mk_mat k n (\<lambda>a j. \<Sum>i<n. entry t i a * ?Ai i j)) a j * entry t j b)
      = mk_mat k k ?Q"
    unfolding mk_mat_eq_iff by (intro allI impI sum.cong refl) simp
  then have m2: "matmul (mk_mat k n (\<lambda>a j. \<Sum>i<n. entry t i a * ?Ai i j)) t = Inr (mk_mat k k ?Q)"
    by (simp add: matmul_mat [OF is_mat_mk_mat t])
  have q: "quad_matrix self t = Inr (mk_mat k k ?Q)"
    by (simp add: quad_matrix_def x td tt m1 m2 bind_res_def)
  have Qz: "?Q a b = (\<Sum>p<n. ?Z p a * ?Z p b)" for a b
    unfolding Ai by (rule sum_gram_form)
  have FZ: "(\<Sum>l<n. entry (tri_tensor F) i l * ?Z l c) = entry t i c" if i: "i < n" for i c
  proof -
    have "(\<Sum>l<n. entry (tri_tensor F) i l * ?Z l c)
        = (\<Sum>m<n. (\<Sum>l<n. entry (tri_tensor F) i l * ?f l m) * entry t m c)"
      by (rule sum_assoc3)
    also have "\<dots> = (\<Sum>m<n. (if i = m then 1 else 0) * entry t m c)"
    proof (intro sum.cong refl arg_cong2 [where f = "(*)"])
      fix m assume "m \<in> {..<n}"
      then have m: "m < n" by simp
      have "(\<Sum>l<n. entry (tri_tensor F) i l * ?f l m) = (\<Sum>l<n. (if ?u then entry x m l * entry ?R l i else entry ?R i l * entry x l m))"
        using i by (intro sum.cong refl) (simp add: Fe mult.commute)
      also have "\<dots> = (if ?u then (\<Sum>l<n. entry x m l * entry ?R l i) else (\<Sum>l<n. entry ?R i l * entry x l m))"
        by simp
      also have "\<dots> = (if i = m then 1 else 0)"
        using right0 left0 i m by auto
      finally show "(\<Sum>l<n. entry (tri_tensor F) i l * ?f l m) = (if i = m then 1 else 0)" .
    qed
    also have "\<dots> = entry t i c"
      by (rule sum_delta_row(1) [OF i])
    finally show ?thesis .
  qed
  have Zy: "?Z p c = entry y p c" if p: "p < n" and c: "c < k" for p c
  proof -
    have "(\<Sum>l<n. entry (tri_tensor F) i l * (?Z l c - entry y l c)) = 0" if i: "i < n" for i
    proof -
      have "(\<Sum>l<n. entry (tri_tensor F) i l * (?Z l c - entry y l c))
          = (\<Sum>l<n. entry (tri_tensor F) i l * ?Z l c) - (\<Sum>l<n. entry (tri_tensor F) i l * entry y l c)"
        by (simp add: right_diff_distrib sum_subtractf)
      then show ?thesis using FZ [OF i, of c] ye0 i c by simp
    qed
    then have "?Z p c - entry y p c = 0"
      by (rule factor_unique [OF vF _ p])
    then show ?thesis by simp
  qed
  have Qd: "entry (mk_mat k k ?Q) a a = ?g a" if a: "a < k" for a
  proof -
    have "entry (mk_mat k k ?Q) a a = (\<Sum>p<n. ?Z p a * ?Z p a)"
      using a by (simp add: Qz)
    also have "\<dots> = (\<Sum>p<n. entry y p a * entry y p a)"
      using a by (intro sum.cong refl) (simp add: Zy)
    finally show ?thesis by (simp add: power2_eq_square)
  qed
  have dv: "mk_vec k (\<lambda>a. entry (mk_mat k k ?Q) a a) = mk_vec k ?g"
    unfolding mk_vec_eq_iff by (intro allI impI) (rule Qd)
  have "diag_sh (shape (mk_mat k k ?Q)) (mk_mat k k ?Q) = Inr (mk_vec k (\<lambda>a. entry (mk_mat k k ?Q) a a))"
    by (simp only: shape_mk_mat diag_sh.simps min.idem)
  then have dg: "diag_sh (shape (mk_mat k k ?Q)) (mk_mat k k ?Q) = Inr (mk_vec k ?g)"
    by (simp only: dv)
  have "(\<Sum>a<k. entry (mk_mat k k ?Q) a a) = (\<Sum>a<k. ?g a)"
    by (intro sum.cong refl) (rule Qd, simp)
  then have tr: "trace_t (mk_mat k k ?Q) = Inr (mk_scalar (\<Sum>a<k. ?g a))"
    by (simp add: trace_t_def)
  show ?thesis
  proof (intro exI conjI impI)
    show "(if ?u then bind_res (tri_transpose_nonbatch (root_op self)) (\<lambda>rt. tri_solve rt t)
      else tri_solve (root_op self) t) = Inr y"
      using solved y(1) by simp
    show "is_mat y n k" by (rule y(2))
    show "\<forall>i<n. \<forall>j<k. (\<Sum>l<n. (if ?u then entry ?R l i else entry ?R i l) * entry y l j) = entry t i j"
      using ye by simp
    show "inv_quad self t False = Inr (mk_vec k ?g)" by (rule iqF)
    show "quad_matrix self t = Inr (mk_mat k k ?Q)" by (rule q)
    show "diag_sh (shape (mk_mat k k ?Q)) (mk_mat k k ?Q) = inv_quad self t False"
      using dg iqF by simp
    show "inv_quad self t True = Inr (mk_scalar (\<Sum>j<k. ?g j))" if "0 < k"
      using that by (rule iqT)
    show "trace_t (mk_mat k k ?Q) = inv_quad self t True" if "0 < k"
      using tr iqT [OF that] by simp
  qed
qed

theorem inv_quad_correct_witness:
  "bind_res (quad_matrix ex_lower \<lparr>shape = [2, 1], vals = [4, 2]\<rparr>) trace_t =
     inv_quad ex_lower \<lparr>shape = [2, 1], vals = [4, 2]\<rparr> True \<and>
   bind_res (quad_matrix ex_lower \<lparr>shape = [2, 1], vals = [4, 2]\<rparr>) (\<lambda>q. diag_sh (shape q) q) =
     inv_quad ex_lower \<lparr>shape = [2, 1], vals = [4, 2]\<rparr> False \<and>
   inv_quad ex_lower \<lparr>shape = [2, 1], vals = [4, 2]\<rparr> True = Inr \<lparr>shape = [], vals = [4]\<rparr>"
proof -
  have m: "is_mat \<lparr>shape = [2, 1], vals = [4, 2]\<rparr> 2 1" by (simp add: is_mat_def)
  obtain q where "quad_matrix ex_lower \<lparr>shape = [2, 1], vals = [4, 2]\<rparr> = Inr q"
    and "diag_sh (shape q) q = inv_quad ex_lower \<lparr>shape = [2, 1], vals = [4, 2]\<rparr> False"
    and "trace_t q = inv_quad ex_lower \<lparr>shape = [2, 1], vals = [4, 2]\<rparr> True"
    using inv_quad_correct [OF valid_ex_lower m] by auto
  moreover have "inv_quad ex_lower \<lparr>shape = [2, 1], vals = [4, 2]\<rparr> True = Inr \<lparr>shape = [], vals = [4]\<rparr>"
    by code_simp
  ultimately show ?thesis by (simp add: bind_res_def)
qed

text \<open>Claim C5 as stated fails for a tensor with no columns: the trace of the empty matrix
  \<open>T\<^sup>T A\<^sup>-\<^sup>1 T\<close> is the scalar zero, but \<open>inv_quad\<close> with reduction returns the empty array of
  shape \<open>[0]\<close>.\<close>

theorem inv_quad_no_columns_example:
  "inv_quad ex_lower \<lparr>shape = [2, 0], vals = []\<rparr> True = Inr \<lparr>shape = [0], vals = []\<rparr> \<and>
   bind_res (quad_matrix ex_lower \<lparr>shape = [2, 0], vals = []\<rparr>) trace_t = Inr \<lparr>shape = [], vals = [0]\<rparr>"
  by code_simp

section \<open>The determinant\<close>

lemma det_example: "det_t \<lparr>shape = [2, 2], vals = [4, 2, 2, 10]\<rparr> = Inr 36"
  by code_simp

lemma skip_neq [simp]: "skip i r \<noteq> i"
  by (simp add: skip_def)

lemma skip_le: "r < n \<Longrightarrow> skip i r < Suc n"
  by (simp add: skip_def)

lemma skip_inj: "skip i r = skip i r' \<longleftrightarrow> r = r'"
  by (auto simp: skip_def split: if_splits)

lemma det_cong:
  "(\<And>i j. i < n \<Longrightarrow> j < n \<Longrightarrow> A i j = B i j) \<Longrightarrow> det_fun n A = det_fun n B"
proof (induction n arbitrary: A B)
  case 0
  show ?case by simp
next
  case (Suc n)
  have "(- 1) ^ i * A i 0 * det_fun n (minor i A) = (- 1) ^ i * B i 0 * det_fun n (minor i B)"
    if "i \<le> n" for i
  proof -
    have "A i 0 = B i 0" using Suc.prems that by simp
    moreover have "det_fun n (minor i A) = det_fun n (minor i B)"
      by (rule Suc.IH) (simp add: minor_def Suc.prems skip_le)
    ultimately show ?thesis by simp
  qed
  then show ?case
    unfolding det_fun.simps by (intro sum.cong refl) simp
qed

lemma minor_upd_same: "minor k (A(k := u)) = minor k A"
  by (simp add: minor_def fun_eq_iff)

lemma minor_upd_other:
  "k \<noteq> i \<Longrightarrow> minor i (A(k := u)) = (minor i A)(unskip i k := (\<lambda>c. u (Suc c)))"
  by (auto simp: minor_def fun_eq_iff skip_def unskip_def)

lemma unskip_less: "k \<noteq> i \<Longrightarrow> k \<le> n \<Longrightarrow> i \<le> n \<Longrightarrow> unskip i k < n"
  by (auto simp: unskip_def)

lemma det_row_linear:
  "k < n \<Longrightarrow>
   det_fun n (A(k := (\<lambda>c. a * v c + b * w c))) =
     a * det_fun n (A(k := v)) + b * det_fun n (A(k := w))"
proof (induction n arbitrary: A k v w)
  case 0
  then show ?case by simp
next
  case (Suc n)
  let ?u = "\<lambda>c. a * v c + b * w c"
  have "(- 1) ^ i * (A(k := ?u)) i 0 * det_fun n (minor i (A(k := ?u)))
      = a * ((- 1) ^ i * (A(k := v)) i 0 * det_fun n (minor i (A(k := v))))
      + b * ((- 1) ^ i * (A(k := w)) i 0 * det_fun n (minor i (A(k := w))))"
    if i: "i \<le> n" for i
  proof (cases "i = k")
    case True
    then show ?thesis by (simp add: minor_upd_same algebra_simps)
  next
    case False
    then have ki: "k \<noteq> i" by simp
    have "unskip i k < n" using ki Suc.prems i by (intro unskip_less) auto
    then have "det_fun n ((minor i A)(unskip i k := (\<lambda>c. a * v (Suc c) + b * w (Suc c))))
      = a * det_fun n ((minor i A)(unskip i k := (\<lambda>c. v (Suc c))))
      + b * det_fun n ((minor i A)(unskip i k := (\<lambda>c. w (Suc c))))"
      by (rule Suc.IH)
    then show ?thesis
      using False by (simp add: minor_upd_other [OF ki] algebra_simps)
  qed
  then have "(\<Sum>i\<le>n. (- 1) ^ i * (A(k := ?u)) i 0 * det_fun n (minor i (A(k := ?u))))
      = (\<Sum>i\<le>n. a * ((- 1) ^ i * (A(k := v)) i 0 * det_fun n (minor i (A(k := v))))
      + b * ((- 1) ^ i * (A(k := w)) i 0 * det_fun n (minor i (A(k := w)))))"
    by (intro sum.cong refl) simp
  then show ?case
    unfolding det_fun.simps by (simp only: sum.distrib sum_distrib_left)
qed

lemma det_adjacent_rows:
  "Suc r < n \<Longrightarrow> A r = A (Suc r) \<Longrightarrow> det_fun n A = 0"
proof (induction n arbitrary: A r)
  case 0
  then show ?case by simp
next
  case (Suc n)
  let ?f = "\<lambda>i. (- 1) ^ i * A i 0 * det_fun n (minor i A)"
  have r: "Suc r \<le> n" using Suc.prems by simp
  have zero: "?f i = 0" if i: "i \<in> {..n} - {r, Suc r}" for i
  proof -
    have "det_fun n (minor i A) = 0"
    proof (cases "i < r")
      case True
      have "minor i A (r - 1) = minor i A (Suc (r - 1))"
        using True Suc.prems(2) by (auto simp: minor_def skip_def fun_eq_iff)
      moreover have "Suc (r - 1) < n" using True r by simp
      ultimately show ?thesis by (rule Suc.IH [rotated])
    next
      case False
      then have gt: "Suc r < i" using i by auto
      have "minor i A r = minor i A (Suc r)"
        using gt Suc.prems(2) by (auto simp: minor_def skip_def fun_eq_iff)
      moreover have "Suc r < n" using gt i by simp
      ultimately show ?thesis by (rule Suc.IH [rotated])
    qed
    then show ?thesis by simp
  qed
  have same: "minor r A = minor (Suc r) A"
    using Suc.prems(2) by (auto simp: minor_def skip_def fun_eq_iff less_Suc_eq)
  have "det_fun (Suc n) A = (\<Sum>i\<le>n. ?f i)" by simp
  also have "\<dots> = (\<Sum>i\<in>{r, Suc r}. ?f i)"
    using r zero by (intro sum.mono_neutral_right) auto
  also have "\<dots> = 0"
    using Suc.prems(2) by (simp add: same)
  finally show ?case .
qed

lemma det_zero_row: "k < n \<Longrightarrow> det_fun n (A(k := (\<lambda>c. 0))) = 0"
  using det_row_linear [of k n A 0 "\<lambda>c. 0" 0 "\<lambda>c. 0"] by simp

lemma det_swap_adjacent:
  assumes "Suc r < n"
  shows "det_fun n (A(r := A (Suc r), Suc r := A r)) = - det_fun n A"
proof -
  let ?x = "A r" and ?y = "A (Suc r)"
  let ?s = "\<lambda>c. 1 * ?x c + 1 * ?y c"
  have r: "r < n" using assms by simp
  have tw: "A(r := u, Suc r := w) = (A(Suc r := w))(r := u)" for u w
    by (rule fun_upd_twist) simp
  have "det_fun n (A(r := ?s, Suc r := ?s)) = 0"
    by (rule det_adjacent_rows [OF assms]) simp
  moreover have "det_fun n (A(r := ?s, Suc r := ?s))
      = 1 * det_fun n (A(r := ?s, Suc r := ?x)) + 1 * det_fun n (A(r := ?s, Suc r := ?y))"
    by (rule det_row_linear [OF assms])
  moreover have "det_fun n (A(r := ?s, Suc r := ?x))
      = 1 * det_fun n (A(r := ?x, Suc r := ?x)) + 1 * det_fun n (A(r := ?y, Suc r := ?x))"
    unfolding tw by (rule det_row_linear [OF r])
  moreover have "det_fun n (A(r := ?s, Suc r := ?y))
      = 1 * det_fun n (A(r := ?x, Suc r := ?y)) + 1 * det_fun n (A(r := ?y, Suc r := ?y))"
    unfolding tw by (rule det_row_linear [OF r])
  moreover have "det_fun n (A(r := ?x, Suc r := ?x)) = 0"
    by (rule det_adjacent_rows [OF assms]) simp
  moreover have "det_fun n (A(r := ?y, Suc r := ?y)) = 0"
    by (rule det_adjacent_rows [OF assms]) simp
  moreover have "A(r := ?x, Suc r := ?y) = A" by simp
  ultimately show ?thesis by simp
qed

lemma det_equal_rows:
  "r < s \<Longrightarrow> s < n \<Longrightarrow> A r = A s \<Longrightarrow> det_fun n A = 0"
proof (induction "s - r" arbitrary: s A rule: less_induct)
  case less
  show ?case
  proof (cases "s = Suc r")
    case True
    then show ?thesis using less.prems by (intro det_adjacent_rows [of r]) auto
  next
    case False
    define s' where "s' = s - 1"
    have s: "s = Suc s'" "r < s'" using False less.prems(1) by (auto simp: s'_def)
    let ?A' = "A(s' := A (Suc s'), Suc s' := A s')"
    have "det_fun n ?A' = - det_fun n A"
      using less.prems(2) s(1) by (intro det_swap_adjacent) simp
    moreover have "det_fun n ?A' = 0"
    proof (rule less.hyps [of s'])
      show "s' - r < s - r" using s by simp
      show "r < s'" by (rule s(2))
      show "s' < n" using less.prems(2) s(1) by simp
      show "?A' r = ?A' s'" using s less.prems(3) by simp
    qed
    ultimately show ?thesis by simp
  qed
qed

lemma det_row_sum:
  fixes m :: nat
  shows "k < n \<Longrightarrow>
   det_fun n (A(k := (\<lambda>c. \<Sum>l<m. a l * M l c))) = (\<Sum>l<m. a l * det_fun n (A(k := M l)))"
proof (induction m)
  case 0
  then show ?case by (simp only: lessThan_0 sum.empty det_zero_row)
next
  case (Suc m)
  have "det_fun n (A(k := (\<lambda>c. 1 * (\<Sum>l<m. a l * M l c) + a m * M m c)))
      = 1 * det_fun n (A(k := (\<lambda>c. \<Sum>l<m. a l * M l c))) + a m * det_fun n (A(k := M m))"
    by (rule det_row_linear [OF Suc.prems])
  then have "det_fun n (A(k := (\<lambda>c. \<Sum>l<Suc m. a l * M l c)))
      = det_fun n (A(k := (\<lambda>c. \<Sum>l<m. a l * M l c))) + a m * det_fun n (A(k := M m))"
    by (simp only: sum.lessThan_Suc mult_1)
  then show ?case using Suc by (simp only: sum.lessThan_Suc)
qed

lemma det_row_combination:
  assumes j: "j < n" and rows: "\<And>l. l < n \<Longrightarrow> l \<noteq> j \<Longrightarrow> a l \<noteq> 0 \<Longrightarrow> B l = M l"
  shows "det_fun n (B(j := (\<lambda>c. \<Sum>l<n. a l * M l c))) = a j * det_fun n (B(j := M j))"
proof -
  have "a l * det_fun n (B(j := M l)) = (if l = j then a j * det_fun n (B(j := M j)) else 0)"
    if l: "l \<in> {..<n}" for l
  proof (cases "l = j \<or> a l = 0")
    case True
    then show ?thesis by auto
  next
    case False
    then have e: "(B(j := M l)) l = (B(j := M l)) j"
      using rows [of l] l by simp
    have "det_fun n (B(j := M l)) = 0"
    proof (cases "l < j")
      case True
      then show ?thesis using e j by (intro det_equal_rows [of l j]) auto
    next
      case False
      then have "j < l" using \<open>\<not> (l = j \<or> a l = 0)\<close> by auto
      then show ?thesis using e l by (intro det_equal_rows [of j l]) auto
    qed
    then show ?thesis using False by simp
  qed
  then have "(\<Sum>l<n. a l * det_fun n (B(j := M l)))
      = (\<Sum>l<n. if l = j then a j * det_fun n (B(j := M j)) else 0)"
    by (intro sum.cong refl)
  also have "\<dots> = a j * det_fun n (B(j := M j))"
    using j by simp
  finally show ?thesis
    by (simp only: det_row_sum [OF j])
qed

lemma det_lower_mult:
  assumes lo: "\<And>i l. i < l \<Longrightarrow> l < n \<Longrightarrow> L i l = 0"
  shows "det_fun n (\<lambda>i c. \<Sum>l<n. L i l * M l c) = (\<Prod>i<n. L i i) * det_fun n M"
proof -
  let ?P = "\<lambda>i c. \<Sum>l<n. L i l * M l c"
  let ?B = "\<lambda>j i. if i < j then M i else ?P i"
  have "j \<le> n \<Longrightarrow> det_fun n (?B j) = (\<Prod>i\<in>{j..<n}. L i i) * det_fun n M" for j
  proof (induction "n - j" arbitrary: j)
    case 0
    then have "j = n" by simp
    then have "det_fun n (?B j) = det_fun n M"
      by (intro det_cong) simp
    then show ?case using \<open>j = n\<close> by simp
  next
    case (Suc d)
    then have j: "j < n" and d: "d = n - Suc j" by auto
    have "?B j = (?B (Suc j))(j := ?P j)"
      by (auto simp: fun_eq_iff less_Suc_eq)
    moreover have "det_fun n ((?B (Suc j))(j := (\<lambda>c. \<Sum>l<n. L j l * M l c)))
        = L j j * det_fun n ((?B (Suc j))(j := M j))"
    proof (rule det_row_combination [OF j])
      fix l assume "l < n" "l \<noteq> j" "L j l \<noteq> 0"
      then have "l < j" using lo [of j l] by (cases "j < l") auto
      then show "?B (Suc j) l = M l" by simp
    qed
    moreover have "(?B (Suc j))(j := M j) = ?B (Suc j)"
      by (auto simp: fun_eq_iff)
    moreover have "det_fun n (?B (Suc j)) = (\<Prod>i\<in>{Suc j..<n}. L i i) * det_fun n M"
      using Suc.hyps(1) [of "Suc j"] d j by simp
    moreover have "(\<Prod>i\<in>{j..<n}. L i i) = L j j * (\<Prod>i\<in>{Suc j..<n}. L i i)"
      using j by (simp add: prod.atLeast_Suc_lessThan)
    ultimately show ?case by simp
  qed
  from this [of 0] show ?thesis by (simp add: atLeast0LessThan)
qed

lemma det_upper_mult:
  assumes up: "\<And>i l. l < i \<Longrightarrow> i < n \<Longrightarrow> U i l = 0"
  shows "det_fun n (\<lambda>i c. \<Sum>l<n. U i l * M l c) = (\<Prod>i<n. U i i) * det_fun n M"
proof -
  let ?P = "\<lambda>i c. \<Sum>l<n. U i l * M l c"
  let ?C = "\<lambda>j i. if i < j then ?P i else M i"
  have "j \<le> n \<Longrightarrow> det_fun n (?C j) = (\<Prod>i<j. U i i) * det_fun n M" for j
  proof (induction j)
    case 0
    then show ?case by simp
  next
    case (Suc j)
    then have j: "j < n" by simp
    have "?C (Suc j) = (?C j)(j := ?P j)"
      by (auto simp: fun_eq_iff less_Suc_eq)
    moreover have "det_fun n ((?C j)(j := (\<lambda>c. \<Sum>l<n. U j l * M l c)))
        = U j j * det_fun n ((?C j)(j := M j))"
    proof (rule det_row_combination [OF j])
      fix l assume "l < n" "l \<noteq> j" "U j l \<noteq> 0"
      then have "j < l" using up [of l j] j by (cases "l < j") auto
      then show "?C j l = M l" by simp
    qed
    moreover have "(?C j)(j := M j) = ?C j"
      by (auto simp: fun_eq_iff)
    moreover have "det_fun n (?C j) = (\<Prod>i<j. U i i) * det_fun n M"
      using Suc by simp
    ultimately show ?case by simp
  qed
  from this [of n] have "det_fun n (?C n) = (\<Prod>i<n. U i i) * det_fun n M" by simp
  moreover have "det_fun n (?C n) = det_fun n ?P"
    by (intro det_cong) simp
  ultimately show ?thesis by simp
qed

lemma det_identity: "det_fun n (\<lambda>i j. if i = j then 1 else 0) = 1"
proof (induction n)
  case 0
  show ?case by simp
next
  case (Suc n)
  let ?I = "\<lambda>i j::nat. if i = j then 1 else (0::real)"
  have m: "minor 0 ?I = ?I"
    by (auto simp: minor_def skip_def fun_eq_iff)
  have "det_fun (Suc n) ?I = (\<Sum>i\<le>n. if i = 0 then det_fun n (minor 0 ?I) else 0)"
    unfolding det_fun.simps by (intro sum.cong refl) simp
  also have "\<dots> = det_fun n (minor 0 ?I)" by simp
  finally show ?case using Suc by (simp only: m)
qed

lemma det_triangular:
  assumes "(\<forall>i l. i < l \<longrightarrow> l < n \<longrightarrow> T i l = 0) \<or> (\<forall>i l. l < i \<longrightarrow> i < n \<longrightarrow> T i l = 0)"
  shows "det_fun n T = (\<Prod>i<n. T i i)"
proof -
  let ?I = "\<lambda>i j::nat. if i = j then 1 else (0::real)"
  have "det_fun n (\<lambda>i c. \<Sum>l<n. T i l * ?I l c) = (\<Prod>i<n. T i i) * det_fun n ?I"
    using assms
  proof
    assume "\<forall>i l. i < l \<longrightarrow> l < n \<longrightarrow> T i l = 0"
    then show ?thesis by (intro det_lower_mult) simp
  next
    assume "\<forall>i l. l < i \<longrightarrow> i < n \<longrightarrow> T i l = 0"
    then show ?thesis by (intro det_upper_mult) simp
  qed
  moreover have "det_fun n (\<lambda>i c. \<Sum>l<n. T i l * ?I l c) = det_fun n T"
    by (intro det_cong) (simp add: sum_delta_row(2))
  ultimately show ?thesis by (simp add: det_identity)
qed

lemma det_triangular_product:
  assumes a: "(\<forall>i l. i < l \<longrightarrow> l < n \<longrightarrow> S i l = 0) \<or> (\<forall>i l. l < i \<longrightarrow> i < n \<longrightarrow> S i l = 0)"
    and b: "(\<forall>i l. i < l \<longrightarrow> l < n \<longrightarrow> T i l = 0) \<or> (\<forall>i l. l < i \<longrightarrow> i < n \<longrightarrow> T i l = 0)"
  shows "det_fun n (\<lambda>i c. \<Sum>l<n. S i l * T l c) = (\<Prod>i<n. S i i) * (\<Prod>i<n. T i i)"
proof -
  have "det_fun n (\<lambda>i c. \<Sum>l<n. S i l * T l c) = (\<Prod>i<n. S i i) * det_fun n T"
    using a
  proof
    assume "\<forall>i l. i < l \<longrightarrow> l < n \<longrightarrow> S i l = 0"
    then show ?thesis by (intro det_lower_mult) simp
  next
    assume "\<forall>i l. l < i \<longrightarrow> i < n \<longrightarrow> S i l = 0"
    then show ?thesis by (intro det_upper_mult) simp
  qed
  then show ?thesis by (simp add: det_triangular [OF b])
qed

section \<open>The log-determinant\<close>

lemma inv_quad_mat_result:
  assumes m: "is_mat (tri_tensor (root_op self)) n n" and t: "is_mat t n k"
  shows "\<exists>x. inv_quad self t red = Inr x"
proof -
  let ?R = "tri_tensor (root_op self)"
  define F where "F = (if upper self then mk_mat n n (\<lambda>i j. entry ?R j i) else ?R)"
  define u where "u = (if upper self then \<not> tri_upper (root_op self) else tri_upper (root_op self))"
  have mF: "is_mat F n n" using m by (simp add: F_def)
  have solved: "(if upper self then bind_res (tri_transpose_nonbatch (root_op self)) (\<lambda>rt. tri_solve rt t)
      else tri_solve (root_op self) t) = solve_triangular F t u"
    using t
    by (simp add: F_def u_def tri_transpose_nonbatch_def transpose_mat [OF m] bind_res_def
        tri_solve_def ndim_def is_mat_shape)
  obtain y where y: "solve_triangular F t u = Inr y" "is_mat y n k"
    by (simp add: solve_triangular_mat [OF mF t])
  have sr: "sum_rows (pow2 y) = Inr (mk_vec k (\<lambda>j. \<Sum>i<n. entry (pow2 y) i j))"
    by (rule sum_rows_mat [OF pow2_mat(1) [OF y(2)]])
  show ?thesis
    unfolding inv_quad_def solved
    by (simp add: y(1) sr bind_res_def sum_last_vec [OF is_vec_mk_vec])
qed

lemma pow2_mk_vec: "pow2 (mk_vec n d) = mk_vec n (\<lambda>i. (d i)\<^sup>2)"
  by (simp add: pow2_def mk_vec_def)

lemma tlog_mk_vec: "tlog (mk_vec n d) = mk_vec n (\<lambda>i. ln (d i))"
  by (simp add: tlog_def mk_vec_def)

lemma sum_last_mk_vec: "sum_last (mk_vec n f) = Inr (mk_scalar (\<Sum>j<n. f j))"
proof -
  have "(\<Sum>j<n. entry1 (mk_vec n f) j) = (\<Sum>j<n. f j)"
    by (intro sum.cong refl) simp
  then show ?thesis by (simp add: sum_last_vec [OF is_vec_mk_vec])
qed

lemma bind_res_simps: "bind_res (Inr x) f = f x" "bind_res (Inl e) f = Inl e"
  by (simp_all add: bind_res_def)

lemma square_op:
  assumes "is_mat (tri_tensor (root_op self)) n m"
  shows "size_op self = Inr [n, n]" and "is_square [n, n]" and "dim_op [n, n] = 2"
  using assms by (simp_all add: is_square_def size_op_def dim_op_def is_mat_def)

lemma inv_quad_logdet_mat:
  assumes m: "is_mat (tri_tensor (root_op self)) n n"
    and rhs: "rhs = None \<or> (\<exists>t k. rhs = Some t \<and> is_mat t n k)"
  shows "\<exists>q. inv_quad_logdet self rhs ld red =
           Inr (q, if ld then Some (mk_scalar (\<Sum>i<n. ln ((entry (tri_tensor (root_op self)) i i)\<^sup>2))) else None) \<and>
         (case rhs of None \<Rightarrow> q = None | Some t \<Rightarrow> \<exists>x. q = Some x \<and> inv_quad self t red = Inr x)"
proof -
  let ?R = "tri_tensor (root_op self)"
  have "chol_diag self = Inr (mk_vec n (\<lambda>i. entry ?R i i))"
    using m by (simp add: chol_diag_def tri_diagonal_def is_mat_def)
  then have ld: "bind_res (chol_diag self) (\<lambda>d. bind_res (sum_last (tlog (pow2 d))) (\<lambda>l. Inr (Some l)))
      = Inr (Some (mk_scalar (\<Sum>i<n. ln ((entry ?R i i)\<^sup>2))))"
    by (simp add: bind_res_def pow2_mk_vec tlog_mk_vec sum_last_mk_vec)
  from rhs show ?thesis
  proof
    assume "rhs = None"
    then show ?thesis
      using square_op [OF m] by (simp add: inv_quad_logdet_def ld bind_res_simps)
  next
    assume "\<exists>t k. rhs = Some t \<and> is_mat t n k"
    then obtain t k where t: "rhs = Some t" "is_mat t n k" by (elim exE conjE)
    obtain x where x: "inv_quad self t red = Inr x"
      using inv_quad_mat_result [OF m t(2), where red = red] by (elim exE)
    have sh: "ndim t = 2" "shape t ! 0 = n" using t(2) by (simp_all add: ndim_def is_mat_def)
    show ?thesis
      using square_op [OF m] sh
      by (simp add: inv_quad_logdet_def ld t(1) x bind_res_simps)
  qed
qed

lemma det_t_mk_mat: "det_t (mk_mat n n G) = Inr (det_fun n G)"
proof -
  have "det_fun n (entry (mk_mat n n G)) = det_fun n G"
    by (intro det_cong) simp
  then show ?thesis by (simp add: det_t_def)
qed

lemma det_gram:
  assumes tr: "is_lower r n n \<or> is_upper r n n"
  shows "det_fun n (gram u n r) = (\<Prod>i<n. entry r i i) * (\<Prod>i<n. entry r i i)"
proof -
  let ?R = "entry r"
  let ?T = "\<lambda>i l. ?R l i"
  have tri: "(\<forall>i l. i < l \<longrightarrow> l < n \<longrightarrow> ?R i l = 0) \<or> (\<forall>i l. l < i \<longrightarrow> i < n \<longrightarrow> ?R i l = 0)"
    using tr by (auto simp: is_lower_def is_upper_def)
  then have trt: "(\<forall>i l. i < l \<longrightarrow> l < n \<longrightarrow> ?T i l = 0) \<or> (\<forall>i l. l < i \<longrightarrow> i < n \<longrightarrow> ?T i l = 0)"
    by auto
  show ?thesis
  proof (cases u)
    case True
    have "gram u n r = (\<lambda>i c. \<Sum>l<n. ?T i l * ?R l c)"
      using True by (simp add: gram_def fun_eq_iff)
    then show ?thesis using det_triangular_product [OF trt tri] by simp
  next
    case False
    have "gram u n r = (\<lambda>i c. \<Sum>l<n. ?R i l * ?T l c)"
      using False by (simp add: gram_def fun_eq_iff)
    then show ?thesis using det_triangular_product [OF tri trt] by simp
  qed
qed

text \<open>
  Claim C6. Let the factor of a Cholesky operator be a square matrix of size \<open>n\<close> that is
  lower or upper triangular and whose diagonal is strictly positive, and let the right-hand
  side be absent or a matrix of \<open>n\<close> rows. Then the log-determinant term that
  \<open>inv_quad_logdet\<close> returns for \<open>logdet = True\<close> is twice the sum of the logarithms of the
  diagonal of the factor; the determinant of \<open>to_dense()\<close> is positive, and the term is its
  logarithm.
\<close>

theorem logdet_correct:
  assumes m: "is_mat (tri_tensor (root_op self)) n n"
    and tr: "is_lower (tri_tensor (root_op self)) n n \<or> is_upper (tri_tensor (root_op self)) n n"
    and pos: "\<forall>i\<in>{..<n}. 0 < entry (tri_tensor (root_op self)) i i"
    and rhs: "rhs = None \<or> (\<exists>t k. rhs = Some t \<and> is_mat t n k)"
  shows "\<exists>a d q. to_dense self = Inr a \<and> det_t a = Inr d \<and> 0 < d \<and>
           inv_quad_logdet self rhs True red =
             Inr (q, Some (mk_scalar (2 * (\<Sum>i<n. ln (entry (tri_tensor (root_op self)) i i))))) \<and>
           (case rhs of None \<Rightarrow> q = None | Some t \<Rightarrow> \<exists>x. q = Some x \<and> inv_quad self t red = Inr x) \<and>
           2 * (\<Sum>i<n. ln (entry (tri_tensor (root_op self)) i i)) = ln d"
proof -
  let ?R = "tri_tensor (root_op self)"
  let ?d = "\<Prod>i<n. entry ?R i i"
  have a: "to_dense self = Inr (mk_mat n n (gram (upper self) n ?R))"
    by (rule to_dense_mat [OF m])
  have d: "det_t (mk_mat n n (gram (upper self) n ?R)) = Inr (?d * ?d)"
    by (simp add: det_t_mk_mat det_gram [OF tr])
  have dpos: "0 < ?d" using pos by (intro prod_pos) simp
  have nz: "entry ?R i i \<noteq> 0" if "i < n" for i
    using pos that by force
  have lnd: "ln ?d = (\<Sum>i<n. ln (entry ?R i i))"
    using pos nz by (intro ln_prod) auto
  have l2: "(\<Sum>i<n. ln ((entry ?R i i)\<^sup>2)) = 2 * (\<Sum>i<n. ln (entry ?R i i))"
  proof -
    have "(\<Sum>i<n. ln ((entry ?R i i)\<^sup>2)) = (\<Sum>i<n. 2 * ln (entry ?R i i))"
      using pos by (intro sum.cong refl) (simp add: ln_realpow)
    then show ?thesis by (simp add: sum_distrib_left)
  qed
  obtain q where q: "inv_quad_logdet self rhs True red =
           Inr (q, if True then Some (mk_scalar (\<Sum>i<n. ln ((entry ?R i i)\<^sup>2))) else None)"
     and qc: "(case rhs of None \<Rightarrow> q = None | Some t \<Rightarrow> \<exists>x. q = Some x \<and> inv_quad self t red = Inr x)"
    using inv_quad_logdet_mat [OF m rhs, of True red] by (elim exE conjE)
  show ?thesis
  proof (intro exI conjI)
    show "to_dense self = Inr (mk_mat n n (gram (upper self) n ?R))" by (rule a)
    show "det_t (mk_mat n n (gram (upper self) n ?R)) = Inr (?d * ?d)" by (rule d)
    show "0 < ?d * ?d" using dpos by simp
    show "inv_quad_logdet self rhs True red = Inr (q, Some (mk_scalar (2 * (\<Sum>i<n. ln (entry ?R i i)))))"
      using q by (simp add: l2)
    show "case rhs of None \<Rightarrow> q = None | Some t \<Rightarrow> \<exists>x. q = Some x \<and> inv_quad self t red = Inr x"
      by (rule qc)
    show "2 * (\<Sum>i<n. ln (entry ?R i i)) = ln (?d * ?d)"
      using dpos by (simp add: ln_mult_pos lnd)
  qed
qed

theorem logdet_correct_witness:
  "inv_quad_logdet ex_lower None True True = Inr (None, Some (mk_scalar (ln 36))) \<and>
   bind_res (to_dense ex_lower) det_t = Inr 36"
proof -
  have p: "\<forall>i\<in>{..<2}. 0 < entry (tri_tensor (root_op ex_lower)) i i"
    by (simp add: ex_lower_def entry_def lessThan_Suc numeral_2_eq_2)
  have m: "is_mat (tri_tensor (root_op ex_lower)) 2 2"
    by (simp add: ex_lower_def is_mat_def)
  have l: "is_lower (tri_tensor (root_op ex_lower)) 2 2 \<or> is_upper (tri_tensor (root_op ex_lower)) 2 2"
    by (simp add: ex_lower_def is_lower_def entry_def lessThan_Suc numeral_2_eq_2)
  have a: "to_dense ex_lower = Inr \<lparr>shape = [2, 2], vals = [4, 2, 2, 10]\<rparr>" by code_simp
  have d: "det_t \<lparr>shape = [2, 2], vals = [4, 2, 2, 10]\<rparr> = Inr 36" by code_simp
  show ?thesis
    using logdet_correct [OF m l p, of None True] a d
    by (auto simp: bind_res_def)
qed

section \<open>The reduction of an empty quadratic form\<close>

text \<open>Claim C9 as stated fails for an operator with no rows: the solved tensor of shape
  \<open>[0, 3]\<close> has no elements, but the per-column result \<open>[0, 0, 0]\<close> has three, and it is
  reduced to a scalar.\<close>

theorem inv_quad_no_rows_example:
  "tri_solve (root_op ex_empty) \<lparr>shape = [0, 3], vals = []\<rparr> = Inr \<lparr>shape = [0, 3], vals = []\<rparr> \<and>
   numel \<lparr>shape = [0, 3], vals = []\<rparr> = 0 \<and>
   inv_quad ex_empty \<lparr>shape = [0, 3], vals = []\<rparr> False = Inr \<lparr>shape = [3], vals = [0, 0, 0]\<rparr> \<and>
   inv_quad ex_empty \<lparr>shape = [0, 3], vals = []\<rparr> True = Inr \<lparr>shape = [], vals = [0]\<rparr>"
  by code_simp

lemma inv_quad_mat_unreduced:
  assumes m: "is_mat (tri_tensor (root_op self)) n n" and t: "is_mat t n k"
  shows "\<exists>y. is_mat y n k \<and> inv_quad self t False = Inr (mk_vec k (\<lambda>j. \<Sum>i<n. (entry y i j)\<^sup>2))"
proof -
  let ?R = "tri_tensor (root_op self)"
  define F where "F = (if upper self then mk_mat n n (\<lambda>i j. entry ?R j i) else ?R)"
  define u where "u = (if upper self then \<not> tri_upper (root_op self) else tri_upper (root_op self))"
  have mF: "is_mat F n n" using m by (simp add: F_def)
  have solved: "(if upper self then bind_res (tri_transpose_nonbatch (root_op self)) (\<lambda>rt. tri_solve rt t)
      else tri_solve (root_op self) t) = solve_triangular F t u"
    using t
    by (simp add: F_def u_def tri_transpose_nonbatch_def transpose_mat [OF m] bind_res_def
        tri_solve_def ndim_def is_mat_shape)
  obtain y where y: "solve_triangular F t u = Inr y" "is_mat y n k"
    by (simp add: solve_triangular_mat [OF mF t])
  have "mk_vec k (\<lambda>j. \<Sum>i<n. entry (pow2 y) i j) = mk_vec k (\<lambda>j. \<Sum>i<n. (entry y i j)\<^sup>2)"
    unfolding mk_vec_eq_iff using pow2_mat(2) [OF y(2)] by simp
  then have sr: "sum_rows (pow2 y) = Inr (mk_vec k (\<lambda>j. \<Sum>i<n. (entry y i j)\<^sup>2))"
    by (simp add: sum_rows_mat [OF pow2_mat(1) [OF y(2)]])
  have "inv_quad self t False = Inr (mk_vec k (\<lambda>j. \<Sum>i<n. (entry y i j)\<^sup>2))"
    unfolding inv_quad_def solved by (simp add: y(1) sr bind_res_def)
  then show ?thesis using y(2) by blast
qed

text \<open>
  Claim C9, as amended. When the per-column result, which is the squared solution summed over
  the solved dimension, has no elements, \<open>inv_quad\<close> with \<open>reduce_inv_quad = True\<close> skips the
  final reduction and returns this empty array, as it does with \<open>reduce_inv_quad = False\<close>;
  otherwise it returns the sum of the per-column result over its last dimension. In
  particular, for a square factor of \<open>n\<close> rows and a right-hand side of \<open>n\<close> rows and no
  columns, \<open>inv_quad\<close> returns the empty array of shape \<open>[0]\<close> and not a scalar.
\<close>

theorem inv_quad_empty_unreduced:
  "(\<forall>q. inv_quad self t False = Inr q \<longrightarrow>
        inv_quad self t True = (if numel q = 0 then Inr q else sum_last q)) \<and>
   (is_mat (tri_tensor (root_op self)) n n \<and> is_mat t n 0 \<longrightarrow>
        inv_quad self t True = Inr \<lparr>shape = [0], vals = []\<rparr>)"
proof (intro conjI allI impI)
  fix q assume "inv_quad self t False = Inr q"
  then show "inv_quad self t True = (if numel q = 0 then Inr q else sum_last q)"
    by (auto simp: inv_quad_def bind_res_def split: sum.splits if_splits)
next
  assume h: "is_mat (tri_tensor (root_op self)) n n \<and> is_mat t n 0"
  then obtain y where y: "inv_quad self t False = Inr (mk_vec 0 (\<lambda>j. \<Sum>i<n. (entry y i j)\<^sup>2))"
    using inv_quad_mat_unreduced [of self n t 0] by blast
  have e: "mk_vec 0 (\<lambda>j. \<Sum>i<n. (entry y i j)\<^sup>2) = \<lparr>shape = [0], vals = []\<rparr>"
    by (simp add: mk_vec_def)
  have "inv_quad self t True = (if numel \<lparr>shape = [0], vals = []\<rparr> = 0 then Inr \<lparr>shape = [0], vals = []\<rparr>
      else sum_last \<lparr>shape = [0], vals = []\<rparr>)"
    using y unfolding e
    by (auto simp: inv_quad_def bind_res_def split: sum.splits if_splits)
  then show "inv_quad self t True = Inr \<lparr>shape = [0], vals = []\<rparr>"
    by (simp add: numel_def)
qed

theorem inv_quad_empty_unreduced_witness:
  "inv_quad ex_lower \<lparr>shape = [2, 0], vals = []\<rparr> False = Inr \<lparr>shape = [0], vals = []\<rparr> \<and>
   inv_quad ex_lower \<lparr>shape = [2, 0], vals = []\<rparr> True = Inr \<lparr>shape = [0], vals = []\<rparr>"
proof -
  have e: "inv_quad ex_lower \<lparr>shape = [2, 0], vals = []\<rparr> False = Inr \<lparr>shape = [0], vals = []\<rparr>"
    by code_simp
  have m: "is_mat (tri_tensor (root_op ex_lower)) 2 2 \<and> is_mat \<lparr>shape = [2, 0], vals = []\<rparr> 2 0"
    by (simp add: ex_lower_def is_mat_def)
  show ?thesis
    using inv_quad_empty_unreduced [of ex_lower "\<lparr>shape = [2, 0], vals = []\<rparr>" 2] e m
    by (simp add: numel_def)
qed

section \<open>Where the orientation does not matter, and the errors of \<open>inv_quad_logdet\<close>\<close>

text \<open>For \<open>upper = False\<close> the row-wise sums of squares that \<open>_diagonal\<close> returns are the
  diagonal of \<open>to_dense()\<close>; in either orientation they are the diagonal of \<open>R R\<^sup>T\<close>.\<close>

lemma diagonal_row_sums:
  assumes m: "is_mat (tri_tensor (root_op self)) n n"
  shows "diagonal self = Inr (mk_vec n (\<lambda>i. gram False n (tri_tensor (root_op self)) i i))"
proof -
  let ?R = "tri_tensor (root_op self)"
  have "(\<Sum>j<n. entry (pow2 ?R) i j) = gram False n ?R i i" if "i < n" for i
  proof -
    have "(\<Sum>j<n. entry (pow2 ?R) i j) = (\<Sum>j<n. entry ?R i j * entry ?R i j)"
      using that by (intro sum.cong refl) (simp add: pow2_mat(2) [OF m] power2_eq_square)
    then show ?thesis by (simp add: gram_def)
  qed
  then have "mk_vec n (\<lambda>i. \<Sum>j<n. entry (pow2 ?R) i j) = mk_vec n (\<lambda>i. gram False n ?R i i)"
    unfolding mk_vec_eq_iff by blast
  then show ?thesis
    by (simp add: diagonal_def tri_to_dense_def sum_last_mat [OF pow2_mat(1) [OF m]])
qed

lemma diagonal_lower:
  assumes m: "is_mat (tri_tensor (root_op self)) n n" and u: "\<not> upper self"
  shows "\<exists>a. to_dense self = Inr a \<and> diagonal self = diag_sh (shape a) a"
proof -
  let ?G = "gram False n (tri_tensor (root_op self))"
  have a: "to_dense self = Inr (mk_mat n n ?G)"
    using to_dense_mat [OF m] u by simp
  have "mk_vec n (\<lambda>i. entry (mk_mat n n ?G) i i) = mk_vec n (\<lambda>i. ?G i i)"
    unfolding mk_vec_eq_iff by simp
  then have "diag_sh (shape (mk_mat n n ?G)) (mk_mat n n ?G) = Inr (mk_vec n (\<lambda>i. ?G i i))"
    by simp
  then show ?thesis using a diagonal_row_sums [OF m] by simp
qed

text \<open>For \<open>upper = False\<close> the root that \<open>root_inv_decomposition\<close> returns represents the
  same matrix as \<open>inverse()\<close>, the inverse of \<open>to_dense()\<close>; and the three hints are never
  read.\<close>

lemma root_inv_decomposition_lower:
  assumes v: "valid_factor (root_op self) n" and u: "\<not> upper self"
  shows "\<exists>s a. root_inv_decomposition self method initial_vectors test_vectors = Inr s \<and>
           root_to_dense s = Inr a \<and> bind_res (inverse_op self) to_dense = Inr a"
proof -
  obtain x where x: "tri_inverse (root_op self) = Inr \<lparr>tri_tensor = x, tri_upper = tri_upper (root_op self)\<rparr>"
    and xm: "is_mat x n n"
    using tri_inverse_mat [OF v] by (elim exE conjE)
  let ?xt = "mk_mat n n (\<lambda>i j. entry x j i)"
  let ?s = "\<lparr>root_op = \<lparr>tri_tensor = ?xt, tri_upper = \<not> tri_upper (root_op self)\<rparr>\<rparr>"
  have s: "root_inv_decomposition self method initial_vectors test_vectors = Inr ?s"
    by (simp add: root_inv_decomposition_def x bind_res_def tri_transpose_nonbatch_def
        transpose_mat [OF xm])
  have "mk_mat n n (\<lambda>i j. \<Sum>l<n. entry ?xt i l * entry (mk_mat n n (\<lambda>i j. entry ?xt j i)) l j)
      = mk_mat n n (gram True n x)"
    unfolding mk_mat_eq_iff gram_def by (intro allI impI sum.cong refl) simp
  then have rd: "root_to_dense ?s = Inr (mk_mat n n (gram True n x))"
    by (simp add: root_to_dense_def tri_transpose_nonbatch_def transpose_mat [OF is_mat_mk_mat]
        bind_res_def tri_matmul_def matmul_mat [OF is_mat_mk_mat is_mat_mk_mat])
  have io: "inverse_op self = Inr \<lparr>root_op = \<lparr>tri_tensor = x, tri_upper = True\<rparr>, upper = True\<rparr>"
    using u by (simp add: inverse_op_def x bind_res_def init_def)
  have td: "to_dense \<lparr>root_op = \<lparr>tri_tensor = x, tri_upper = True\<rparr>, upper = True\<rparr> = Inr (mk_mat n n (gram True n x))"
    using to_dense_mat [of "\<lparr>root_op = \<lparr>tri_tensor = x, tri_upper = True\<rparr>, upper = True\<rparr>" n] xm by simp
  show ?thesis using s rd io td by (simp add: bind_res_def)
qed

lemma root_inv_decomposition_ignores_hints:
  "root_inv_decomposition self method initial_vectors test_vectors =
   root_inv_decomposition self method' initial_vectors' test_vectors'"
  by (simp add: root_inv_decomposition_def)

text \<open>The size of an operator is square whenever it exists, so the branch of
  \<open>inv_quad_logdet\<close> that raises the structural error is never taken: for a root of two
  rows and three columns the operator is of size \<open>(2, 2)\<close>. What \<open>inv_quad_logdet\<close>
  raises itself are the two shape errors for a right-hand side that does not fit.\<close>

lemma size_sh_square: "size_sh sh = Inr sz \<Longrightarrow> is_square sz"
proof (cases sh rule: size_sh.cases)
  case (3 a b c)
  assume "size_sh sh = Inr sz"
  then have "rev sz = sh ! (length sh - 2) # sh ! (length sh - 2) # rev (butlast (butlast sh))"
    using 3 by (auto simp: Let_def)
  then show ?thesis by (simp add: is_square_def)
qed simp_all

lemma size_op_square: "size_op self = Inr sz \<Longrightarrow> is_square sz"
  unfolding size_op_def by (rule size_sh_square)

lemma inv_quad_logdet_shape_errors:
  assumes "size_op self = Inr sz"
  shows "dim_op sz = 2 \<Longrightarrow> ndim t = 1 \<Longrightarrow> last sz \<noteq> numel t \<Longrightarrow>
           inv_quad_logdet self (Some t) ld red = Inl (RuntimeError (CannotMultiply sz (shape t)))"
    and "\<not> (dim_op sz = 2 \<and> ndim t = 1) \<Longrightarrow> dim_op sz \<noteq> ndim t \<Longrightarrow>
           inv_quad_logdet self (Some t) ld red = Inl (RuntimeError (SameDims sz (shape t)))"
    and "\<not> (dim_op sz = 2 \<and> ndim t = 1) \<Longrightarrow> dim_op sz = ndim t \<Longrightarrow>
         last sz \<noteq> shape t ! (ndim t - 2) \<Longrightarrow>
           inv_quad_logdet self (Some t) ld red = Inl (RuntimeError (CannotMultiply sz (shape t)))"
  using assms size_op_square [OF assms] by (auto simp: inv_quad_logdet_def bind_res_def)

lemma inv_quad_logdet_shape_errors_example:
  "inv_quad_logdet ex_lower (Some \<lparr>shape = [3], vals = [1, 2, 3]\<rparr>) False True =
     Inl (RuntimeError (CannotMultiply [2, 2] [3])) \<and>
   inv_quad_logdet ex_lower (Some \<lparr>shape = [1, 2, 1], vals = [1, 2]\<rparr>) False True =
     Inl (RuntimeError (SameDims [2, 2] [1, 2, 1])) \<and>
   inv_quad_logdet ex_lower (Some \<lparr>shape = [3, 1], vals = [1, 2, 3]\<rparr>) False True =
     Inl (RuntimeError (CannotMultiply [2, 2] [3, 1])) \<and>
   inv_quad_logdet \<lparr>root_op = \<lparr>tri_tensor = \<lparr>shape = [2, 3], vals = [1, 0, 0, 1, 1, 0]\<rparr>, tri_upper = False\<rparr>, upper = False\<rparr>
       None False True =
     Inr (None, None)"
  by (simp add: inv_quad_logdet_def is_square_def size_op_def dim_op_def ex_lower_def ndim_def
      numel_def bind_res_def)

text \<open>The failure of claim C7 is not particular to the example: for every square factor, a
  vector of matching length passes the shape checks and then fails inside \<open>inv_quad\<close>.\<close>

lemma inv_quad_vector_rhs:
  assumes m: "is_mat (tri_tensor (root_op self)) n n" and t: "is_vec t n"
  shows "inv_quad self t red = Inl (IndexError ''Dimension out of range'')"
proof -
  let ?R = "tri_tensor (root_op self)"
  define F where "F = (if upper self then mk_mat n n (\<lambda>i j. entry ?R j i) else ?R)"
  define u where "u = (if upper self then \<not> tri_upper (root_op self) else tri_upper (root_op self))"
  have mF: "is_mat F n n" using m by (simp add: F_def)
  have solved: "(if upper self then bind_res (tri_transpose_nonbatch (root_op self)) (\<lambda>rt. tri_solve rt t)
      else tri_solve (root_op self) t)
      = bind_res (solve_triangular F (unsqueeze_last t) u) (\<lambda>x. Inr (squeeze_last x))"
    by (simp add: F_def u_def tri_transpose_nonbatch_def transpose_mat [OF m] bind_res_def
        tri_solve_def unsqueeze_vec(3) [OF t])
  obtain y where y: "solve_triangular F (unsqueeze_last t) u = Inr y" "is_mat y n 1"
    by (simp add: solve_triangular_mat [OF mF unsqueeze_vec(1) [OF t]])
  have "shape (pow2 (squeeze_last y)) = [n]"
    using squeeze_column(1) [OF y(2)] by (simp add: pow2_def is_vec_def)
  then have "sum_rows (pow2 (squeeze_last y)) = Inl (IndexError ''Dimension out of range'')"
    by (simp add: sum_rows_def)
  then show ?thesis
    unfolding inv_quad_def solved by (simp add: y(1) bind_res_def)
qed

lemma inv_quad_logdet_vector_rhs:
  assumes m: "is_mat (tri_tensor (root_op self)) n n" and t: "is_vec t n"
  shows "inv_quad_logdet self (Some t) ld red = Inl (IndexError ''Dimension out of range'')"
proof -
  have "numel t = n" "ndim t = 1" using t by (simp_all add: numel_def ndim_def is_vec_def)
  then show ?thesis
    using square_op [OF m] inv_quad_vector_rhs [OF m t, of red]
    by (simp add: inv_quad_logdet_def bind_res_def)
qed

end
